theory Spec2Isabelle
  imports Main
begin

section \<open>funclist.h: lists encoded as their own right folds\<close>

text \<open>
  A list of \<^verbatim>\<open>funclist.h\<close> is a closure \<^verbatim>\<open>l(f, a)\<close> that folds \<^verbatim>\<open>f\<close> over its
  elements from the right, starting from \<^verbatim>\<open>a\<close>. C++ evaluates the argument
  \<^verbatim>\<open>l(f, a)\<close> of \<^verbatim>\<open>f(x, l(f, a))\<close> before the body of \<^verbatim>\<open>f\<close> runs, so a side effect
  of \<^verbatim>\<open>f\<close> is threaded through the accumulator: in \<open>as_string\<close> the accumulator
  carries the vector \<^verbatim>\<open>elements\<close> next to the \<^verbatim>\<open>int\<close> the lambda returns.
\<close>

type_synonym ('x, 'a) flist = "('x \<Rightarrow> 'a \<Rightarrow> 'a) \<Rightarrow> 'a \<Rightarrow> 'a"

definition empty_flist :: "('x, 'a) flist" where
  "empty_flist f a = a"

definition cons :: "'x \<Rightarrow> ('x, 'a) flist \<Rightarrow> ('x, 'a) flist" where
  "cons x l = (\<lambda>f a. f x (l f a))"

text \<open>\<^verbatim>\<open>detail::create(x, xs...)\<close>: the parameter pack is the HOL list of arguments.\<close>

fun create :: "'x list \<Rightarrow> ('x, 'a) flist" where
  "create [] = empty_flist"
| "create (x # xs) = cons x (create xs)"

text \<open>
  The lambda handed to the list by \<^verbatim>\<open>as_string\<close>: it renders \<^verbatim>\<open>x\<close> followed by
  \<^verbatim>\<open>';'\<close> into a fresh stream, pushes the text onto \<^verbatim>\<open>elements\<close> and returns 0.
  \<open>render\<close> stands for \<^verbatim>\<open>operator<<\<close> of the element type.
\<close>

definition push_element :: "('x \<Rightarrow> string) \<Rightarrow> 'x \<Rightarrow> string list \<times> int \<Rightarrow> string list \<times> int" where
  "push_element render x acc = (fst acc @ [render x @ '';''], 0)"

text \<open>The loop from \<^verbatim>\<open>crbegin()\<close> to \<^verbatim>\<open>crend()\<close>: appends the elements back to front.\<close>

fun append_reversed :: "string \<Rightarrow> string list \<Rightarrow> string" where
  "append_reversed result [] = result"
| "append_reversed result (e # es) = append_reversed result es @ e"

definition as_string :: "('x \<Rightarrow> string) \<Rightarrow> ('x, string list \<times> int) flist \<Rightarrow> string" where
  "as_string render l =
     (let elements = fst (l (push_element render) ([], 0));
          result = append_reversed ''['' elements;
          result = (if length result > 1 then butlast result else result)
      in result @ '']'')"

text \<open>The text the specification describes: the renderings separated by \<^verbatim>\<open>';'\<close>.\<close>

fun separated :: "string list \<Rightarrow> string" where
  "separated [] = []"
| "separated [s] = s"
| "separated (s # t # ts) = s @ '';'' @ separated (t # ts)"

definition bracketed :: "('x \<Rightarrow> string) \<Rightarrow> 'x list \<Rightarrow> string" where
  "bracketed render xs = ''['' @ separated (map render xs) @ '']''"

section \<open>poly.h: polynomials with a compile-time number of coefficients\<close>

subsection \<open>Integer scalars\<close>

text \<open>
  The coefficient type \<^verbatim>\<open>T\<close> and the type of an argument range over the integer types
  on which arithmetic works without integral promotion: \<^verbatim>\<open>int\<close>, \<^verbatim>\<open>unsigned\<close>,
  \<^verbatim>\<open>long\<close>, \<^verbatim>\<open>unsigned long\<close>, \<^verbatim>\<open>long long\<close> and \<^verbatim>\<open>unsigned long long\<close>. Such a type
  is given by its signedness and its width in bits; a type of greater rank is at least as
  wide, and two types of the same signedness and width compute the same values. A scalar
  is a type together with a value in the range of the type.
\<close>

datatype int_type = Signed nat | Unsigned nat

record scalar =
  type_of :: int_type
  val :: int


text \<open>The values of a type, in two's complement for a signed type.\<close>

fun in_range :: "int_type \<Rightarrow> int \<Rightarrow> bool" where
  "in_range (Signed w) v = (- (2 ^ (w - 1)) \<le> v \<and> v < 2 ^ (w - 1))"
| "in_range (Unsigned w) v = (0 \<le> v \<and> v < 2 ^ w)"

text \<open>
  The integral conversion to a type: the value of the type that is congruent to the
  given one modulo \<open>2 ^ w\<close>.
\<close>

fun convert :: "int_type \<Rightarrow> int \<Rightarrow> int" where
  "convert (Signed w) v = (v + 2 ^ (w - 1)) mod 2 ^ w - 2 ^ (w - 1)"
| "convert (Unsigned w) v = v mod 2 ^ w"

text \<open>
  The type in which a binary operator computes (the usual arithmetic conversions), which
  for these types is also \<^verbatim>\<open>std::common_type_t\<close>: of two types of the same signedness
  the wider; of a signed and an unsigned type the unsigned one, unless the signed type is
  wider and so holds every value of the unsigned type.
\<close>

fun common_type :: "int_type \<Rightarrow> int_type \<Rightarrow> int_type" where
  "common_type (Signed m) (Signed n) = Signed (max m n)"
| "common_type (Unsigned m) (Unsigned n) = Unsigned (max m n)"
| "common_type (Signed m) (Unsigned n) = (if m \<le> n then Unsigned n else Signed m)"
| "common_type (Unsigned m) (Signed n) = (if n \<le> m then Unsigned m else Signed n)"

text \<open>
  The result of an arithmetic expression: a value, or the overflow of a signed operation,
  whose behaviour is undefined. A binary operator converts both operands to the common
  type and computes there: modulo \<open>2 ^ w\<close> in an unsigned type, and in a signed type
  exactly when the result is a value of the type.
\<close>

datatype 'a checked = Value 'a | Overflow

definition arith :: "(int \<Rightarrow> int \<Rightarrow> int) \<Rightarrow> scalar \<Rightarrow> scalar \<Rightarrow> scalar checked" where
  "arith f a b =
     (let t = common_type (type_of a) (type_of b);
          r = f (convert t (val a)) (convert t (val b))
      in case t of
           Unsigned w \<Rightarrow> Value \<lparr>type_of = t, val = r mod 2 ^ w\<rparr>
         | Signed w \<Rightarrow> if in_range t r then Value \<lparr>type_of = t, val = r\<rparr> else Overflow)"

text \<open>The built-in \<^verbatim>\<open>+\<close>, \<^verbatim>\<open>*\<close> and \<^verbatim>\<open>==\<close> on scalars.\<close>

definition plus_scalar :: "scalar \<Rightarrow> scalar \<Rightarrow> scalar checked" where
  "plus_scalar = arith (+)"

definition times_scalar :: "scalar \<Rightarrow> scalar \<Rightarrow> scalar checked" where
  "times_scalar = arith (*)"



subsection \<open>The class \<^verbatim>\<open>poly\<close>\<close>

text \<open>
  A \<^verbatim>\<open>poly<T, N>\<close> over a scalar type: the type \<^verbatim>\<open>T\<close> and the \<^verbatim>\<open>N\<close> values of the array
  \<^verbatim>\<open>coefficients\<close>, the constant term first; \<^verbatim>\<open>N\<close> is the length of the list.
  \<^verbatim>\<open>operator[]\<close> reads a coefficient, a scalar of type \<^verbatim>\<open>T\<close>.
\<close>

record poly =
  scalar_type :: int_type
  coefficients :: "int list"

definition coefficient :: "poly \<Rightarrow> nat \<Rightarrow> scalar" where
  "coefficient p i = \<lparr>type_of = scalar_type p, val = coefficients p ! i\<rparr>"





text \<open>
  The inner loop of \<^verbatim>\<open>operator*\<close>, over \<^verbatim>\<open>j\<close>, and the outer one, over \<^verbatim>\<open>i\<close>. The
  statement \<^verbatim>\<open>result[i + j] += a[i] * b[j]\<close> computes the product, then the sum, and
  converts the sum to the coefficient type of \<^verbatim>\<open>result\<close>.
\<close>

function mul_inner :: "poly \<Rightarrow> poly \<Rightarrow> nat \<Rightarrow> nat \<Rightarrow> poly \<Rightarrow> poly checked" where
  "mul_inner a b i j result =
     (if j < length (coefficients b)
      then (case times_scalar (coefficient a i) (coefficient b j) of
              Overflow \<Rightarrow> Overflow
            | Value m \<Rightarrow>
                (case plus_scalar (coefficient result (i + j)) m of
                   Overflow \<Rightarrow> Overflow
                 | Value s \<Rightarrow>
                     mul_inner a b i (j + 1)
                       (result\<lparr>coefficients :=
                          (coefficients result)[i + j := convert (scalar_type result) (val s)]\<rparr>)))
      else Value result)"
  by pat_completeness auto
termination
  by (relation "measure (\<lambda>(a, b, i, j, result). length (coefficients b) - j)") auto

function mul_outer :: "poly \<Rightarrow> poly \<Rightarrow> nat \<Rightarrow> poly \<Rightarrow> poly checked" where
  "mul_outer a b i result =
     (if i < length (coefficients a)
      then (case mul_inner a b i 0 result of
              Overflow \<Rightarrow> Overflow
            | Value r \<Rightarrow> mul_outer a b (i + 1) r)
      else Value result)"
  by pat_completeness auto
termination
  by (relation "measure (\<lambda>(a, b, i, result). length (coefficients a) - i)") auto




subsection \<open>Well-typed values and the polynomial over the integers\<close>





text \<open>
  The value over the integers of the polynomial with the coefficients \<open>cs\<close> at \<open>x\<close>, and
  a bound of every intermediate result of its evaluation: the polynomial of the absolute
  values at \<open>max 1 \<bar>x\<bar>\<close>.
\<close>

fun horner :: "int list \<Rightarrow> int \<Rightarrow> int" where
  "horner [] x = 0"
| "horner (c # cs) x = c + x * horner cs x"

definition magnitude :: "int list \<Rightarrow> int \<Rightarrow> int" where
  "magnitude cs x = horner (map abs cs) (max 1 \<bar>x\<bar>)"




section \<open>binder.h: an ordered key-value container with copy-on-write sharing\<close>

subsection \<open>The data model\<close>

text \<open>
  A \<^verbatim>\<open>data_t\<close> (a snapshot) owns the list \<^verbatim>\<open>notes\<close> and the map \<^verbatim>\<open>index\<close>. Every
  node of a \<^verbatim>\<open>std::list\<close> has an identity that insertions and removals elsewhere in
  the list leave alone; a \<^verbatim>\<open>notes_t::iterator\<close> is such an identity. The pointer
  \<^verbatim>\<open>const K*\<close> of an entry is \<open>None\<close> for \<^verbatim>\<open>nullptr\<close> and \<open>Some k\<close> when it
  points to the key \<open>k\<close> stored in an index (which index is not recorded).
\<close>

type_synonym addr = nat
type_synonym node = nat
type_synonym hid = nat

record ('k, 'v) entry =
  node_id :: node
  first :: "'k option"
  second :: 'v

record ('k, 'v) data_t =
  "notes" :: "('k, 'v) entry list"
  index :: "'k \<rightharpoonup> node"

text \<open>A \<^verbatim>\<open>binder\<close> object (a handle): its \<^verbatim>\<open>shared_ptr\<close> and its flag.\<close>

record binder_t =
  data :: "addr option"
  unsharable :: bool

text \<open>
  The program state: the binder objects alive, each known by its position, and the
  store of snapshots. A call names a binder by a position below the length of the list. A snapshot lives while a \<^verbatim>\<open>shared_ptr\<close> refers to it, so its
  \<^verbatim>\<open>use_count\<close> is the number of binders whose \<^verbatim>\<open>data\<close> is its address, and
  \<^verbatim>\<open>make_shared\<close> returns an address that no binder refers to. What the store holds
  at an address without a referring binder is of no consequence.
\<close>

record ('k, 'v) world =
  handles :: "binder_t list"
  heap :: "addr \<Rightarrow> ('k, 'v) data_t"

text \<open>
  What a call returns besides the new state: a value, or the exception it throws.
  \<open>Undefined\<close> marks a step whose behaviour C++ leaves undefined (a null or end
  iterator dereferenced); \<open>data_ok\<close> below rules these out.
\<close>

datatype error = InvalidArgument string | BadAlloc | Undefined

text \<open>
  The places where an allocation (or the copy of a key or a value) may throw:
  \<^verbatim>\<open>make_shared\<close>'s own allocation, the copy of \<^verbatim>\<open>notes\<close> and the \<open>i\<close>-th
  \<^verbatim>\<open>index.emplace\<close> in the copy constructor of \<^verbatim>\<open>data_t\<close>, the insertion of a list
  node and the \<^verbatim>\<open>index.emplace\<close> of an insertion. A call is given the set of places
  that throw.
\<close>

datatype site = AllocData | CopyNotes | CloneEmplace nat | InsertNote | InsertIndex

definition no_fault :: "site \<Rightarrow> bool" where
  "no_fault s = False"

definition use_count :: "('k, 'v) world \<Rightarrow> addr \<Rightarrow> nat" where
  "use_count w p = length (filter (\<lambda>b. data b = Some p) (handles w))"

primrec max_addr :: "binder_t list \<Rightarrow> addr" where
  "max_addr [] = 0"
| "max_addr (b # bs) = (case data b of None \<Rightarrow> max_addr bs | Some p \<Rightarrow> max p (max_addr bs))"

definition new_addr :: "('k, 'v) world \<Rightarrow> addr" where
  "new_addr w = Suc (max_addr (handles w))"

primrec max_node :: "('k, 'v) entry list \<Rightarrow> node" where
  "max_node [] = 0"
| "max_node (n # ns) = max (node_id n) (max_node ns)"

definition new_node :: "('k, 'v) entry list \<Rightarrow> node" where
  "new_node ns = Suc (max_node ns)"

subsection \<open>Operations of the standard containers\<close>

text \<open>\<^verbatim>\<open>index.emplace(k, it)\<close>: inserts unless the key is there already.\<close>

definition emplace :: "'k \<Rightarrow> node \<Rightarrow> ('k \<rightharpoonup> node) \<Rightarrow> ('k \<rightharpoonup> node)" where
  "emplace k it idx = (case idx k of None \<Rightarrow> idx(k \<mapsto> it) | Some _ \<Rightarrow> idx)"

text \<open>The node an iterator designates.\<close>

primrec find_node :: "node \<Rightarrow> ('k, 'v) entry list \<Rightarrow> ('k, 'v) entry option" where
  "find_node it [] = None"
| "find_node it (n # ns) = (if node_id n = it then Some n else find_node it ns)"

text \<open>
  \<^verbatim>\<open>notes.erase(it)\<close> and \<^verbatim>\<open>notes.insert(std::next(it), x)\<close>. Through an iterator
  that designates no node of the list both are undefined in C++; here they leave the
  list as it is.
\<close>

primrec erase_node :: "node \<Rightarrow> ('k, 'v) entry list \<Rightarrow> ('k, 'v) entry list" where
  "erase_node it [] = []"
| "erase_node it (n # ns) = (if node_id n = it then ns else n # erase_node it ns)"

primrec insert_next :: "node \<Rightarrow> ('k, 'v) entry \<Rightarrow> ('k, 'v) entry list \<Rightarrow> ('k, 'v) entry list" where
  "insert_next it x [] = []"
| "insert_next it x (n # ns) = (if node_id n = it then n # x # ns else n # insert_next it x ns)"

text \<open>The assignments \<^verbatim>\<open>it->first = &key\<close> and \<^verbatim>\<open>it->second = v\<close>.\<close>

definition set_first :: "node \<Rightarrow> 'k \<Rightarrow> ('k, 'v) entry list \<Rightarrow> ('k, 'v) entry list" where
  "set_first it k ns = map (\<lambda>n. if node_id n = it then n\<lparr>first := Some k\<rparr> else n) ns"

definition set_second :: "node \<Rightarrow> 'v \<Rightarrow> ('k, 'v) entry list \<Rightarrow> ('k, 'v) entry list" where
  "set_second it v ns = map (\<lambda>n. if node_id n = it then n\<lparr>second := v\<rparr> else n) ns"

subsection \<open>\<^verbatim>\<open>data_t\<close>\<close>

definition empty_data :: "('k, 'v) data_t" where
  "empty_data = \<lparr>notes = [], index = Map.empty\<rparr>"

text \<open>
  The loop of the copy constructor \<^verbatim>\<open>data_t(const data_t&)\<close> over the copied
  \<^verbatim>\<open>notes\<close>, the \<open>i\<close>-th entry first: it puts the entry's key into the new index and
  points the entry to it. An exception leaves the loop through the handler, which
  clears the object under construction and throws again.
\<close>

fun rebuild_index :: "(site \<Rightarrow> bool) \<Rightarrow> nat \<Rightarrow> ('k, 'v) entry list \<Rightarrow> ('k \<rightharpoonup> node)
    \<Rightarrow> error + ('k, 'v) entry list \<times> ('k \<rightharpoonup> node)" where
  "rebuild_index fails i [] idx = Inr ([], idx)"
| "rebuild_index fails i (n # ns) idx =
     (if fails (CloneEmplace i) then Inl BadAlloc
      else case first n of
        None \<Rightarrow> Inl Undefined
      | Some k \<Rightarrow>
          (case rebuild_index fails (i + 1) ns (emplace k (node_id n) idx) of
             Inl e \<Rightarrow> Inl e
           | Inr (ns', idx') \<Rightarrow> Inr (n\<lparr>first := Some k\<rparr> # ns', idx')))"

definition copy_data_t :: "(site \<Rightarrow> bool) \<Rightarrow> ('k, 'v) data_t \<Rightarrow> error + ('k, 'v) data_t" where
  "copy_data_t fails other =
     (if fails CopyNotes then Inl BadAlloc
      else case rebuild_index fails 0 (notes other) Map.empty of
        Inl e \<Rightarrow> Inl e
      | Inr (ns, idx) \<Rightarrow> Inr \<lparr>notes = ns, index = idx\<rparr>)"

text \<open>\<^verbatim>\<open>std::make_shared<data_t>()\<close> and \<^verbatim>\<open>std::make_shared<data_t>(other)\<close>.\<close>

definition make_shared_empty :: "(site \<Rightarrow> bool) \<Rightarrow> ('k, 'v) world \<Rightarrow> (error + addr) \<times> ('k, 'v) world" where
  "make_shared_empty fails w =
     (if fails AllocData then (Inl BadAlloc, w)
      else (Inr (new_addr w), w\<lparr>heap := (heap w)(new_addr w := empty_data)\<rparr>))"

definition make_shared_copy :: "(site \<Rightarrow> bool) \<Rightarrow> ('k, 'v) data_t \<Rightarrow> ('k, 'v) world
    \<Rightarrow> (error + addr) \<times> ('k, 'v) world" where
  "make_shared_copy fails other w =
     (if fails AllocData then (Inl BadAlloc, w)
      else case copy_data_t fails other of
        Inl e \<Rightarrow> (Inl e, w)
      | Inr d \<Rightarrow> (Inr (new_addr w), w\<lparr>heap := (heap w)(new_addr w := d)\<rparr>))"

subsection \<open>The private members\<close>

text \<open>
  \<^verbatim>\<open>going_to_edit\<close>, called on the binder \<open>h\<close>: a copy of the data when it is
  shared, the data itself otherwise. The \<^verbatim>\<open>use_count\<close> of an empty pointer is 0.
\<close>

definition going_to_edit :: "(site \<Rightarrow> bool) \<Rightarrow> hid \<Rightarrow> ('k, 'v) world
    \<Rightarrow> (error + addr option) \<times> ('k, 'v) world" where
  "going_to_edit fails h w =
     (case data (handles w ! h) of
        None \<Rightarrow> (Inr None, w)
      | Some p \<Rightarrow>
          if use_count w p > 1
          then (case make_shared_copy fails (heap w p) w of
                  (Inl e, w') \<Rightarrow> (Inl e, w')
                | (Inr q, w') \<Rightarrow> (Inr (Some q), w'))
          else (Inr (Some p), w))"

definition successful_edit :: "hid \<Rightarrow> addr option \<Rightarrow> ('k, 'v) world \<Rightarrow> ('k, 'v) world" where
  "successful_edit h new_data w =
     w\<lparr>handles := (handles w)[h := \<lparr>data = new_data, unsharable = False\<rparr>]\<rparr>"

text \<open>The assignment \<^verbatim>\<open>unsharable = v\<close> in the binder \<open>h\<close>.\<close>

definition set_unsharable :: "hid \<Rightarrow> bool \<Rightarrow> ('k, 'v) world \<Rightarrow> ('k, 'v) world" where
  "set_unsharable h v w = w\<lparr>handles := (handles w)[h := (handles w ! h)\<lparr>unsharable := v\<rparr>]\<rparr>"

subsection \<open>Constructors and assignment\<close>

text \<open>A constructor adds a binder at the end of \<open>handles\<close> and returns its position.\<close>

definition binder_default :: "('k, 'v) world \<Rightarrow> hid \<times> ('k, 'v) world" where
  "binder_default w =
     (length (handles w), w\<lparr>handles := handles w @ [\<lparr>data = None, unsharable = False\<rparr>]\<rparr>)"

definition binder_copy :: "(site \<Rightarrow> bool) \<Rightarrow> hid \<Rightarrow> ('k, 'v) world \<Rightarrow> (error + hid) \<times> ('k, 'v) world" where
  "binder_copy fails other w =
     (case (unsharable (handles w ! other), data (handles w ! other)) of
        (True, Some p) \<Rightarrow>
          (case make_shared_copy fails (heap w p) w of
             (Inl e, w') \<Rightarrow> (Inl e, w')
           | (Inr q, w') \<Rightarrow>
               (Inr (length (handles w')),
                w'\<lparr>handles := handles w' @ [\<lparr>data = Some q, unsharable = False\<rparr>]\<rparr>))
      | (_, d) \<Rightarrow>
          (Inr (length (handles w)),
           w\<lparr>handles := handles w @ [\<lparr>data = d, unsharable = False\<rparr>]\<rparr>))"

text \<open>
  The move constructor: the moved-from \<^verbatim>\<open>shared_ptr\<close> is left empty, the flag of
  \<^verbatim>\<open>other\<close> is copied and stays as it is in \<^verbatim>\<open>other\<close>.
\<close>

definition binder_move :: "hid \<Rightarrow> ('k, 'v) world \<Rightarrow> hid \<times> ('k, 'v) world" where
  "binder_move other w =
     (let b = handles w ! other
      in (length (handles w),
          w\<lparr>handles := (handles w)[other := b\<lparr>data := None\<rparr>]
                          @ [\<lparr>data = data b, unsharable = unsharable b\<rparr>]\<rparr>))"

text \<open>
  \<^verbatim>\<open>operator=(binder other)\<close> takes its argument by value: the caller constructs the
  parameter \<^verbatim>\<open>other\<close> by copy or by move, the body swaps the pointers and clears the
  flag, and the parameter, the binder constructed last, is destroyed on return.
\<close>

definition assign_body :: "hid \<Rightarrow> hid \<Rightarrow> ('k, 'v) world \<Rightarrow> ('k, 'v) world" where
  "assign_body h other w =
     (let b = handles w ! h; ob = handles w ! other
      in w\<lparr>handles := (handles w)[h := \<lparr>data = data ob, unsharable = False\<rparr>,
                                    other := ob\<lparr>data := data b\<rparr>]\<rparr>)"

definition destroy_last :: "('k, 'v) world \<Rightarrow> ('k, 'v) world" where
  "destroy_last w = w\<lparr>handles := butlast (handles w)\<rparr>"

definition copy_assign :: "(site \<Rightarrow> bool) \<Rightarrow> hid \<Rightarrow> hid \<Rightarrow> ('k, 'v) world
    \<Rightarrow> (error + unit) \<times> ('k, 'v) world" where
  "copy_assign fails h src w =
     (case binder_copy fails src w of
        (Inl e, w') \<Rightarrow> (Inl e, w')
      | (Inr other, w') \<Rightarrow> (Inr (), destroy_last (assign_body h other w')))"

definition move_assign :: "hid \<Rightarrow> hid \<Rightarrow> ('k, 'v) world \<Rightarrow> ('k, 'v) world" where
  "move_assign h src w =
     (case binder_move src w of (other, w') \<Rightarrow> destroy_last (assign_body h other w'))"

subsection \<open>Insertion\<close>

text \<open>
  The part of \<^verbatim>\<open>insert_front\<close> that works on \<^verbatim>\<open>*new_data\<close>: the new node with a
  null key pointer, then the index entry, with \<^verbatim>\<open>pop_front\<close> in the handler. The
  result is the exception thrown, if any, and the snapshot as the call leaves it.
\<close>

definition emplace_front_note :: "(site \<Rightarrow> bool) \<Rightarrow> 'k \<Rightarrow> 'v \<Rightarrow> ('k, 'v) data_t
    \<Rightarrow> error option \<times> ('k, 'v) data_t" where
  "emplace_front_note fails k v d =
     (if fails InsertNote then (Some BadAlloc, d)
      else
        let nd = new_node (notes d);
            d1 = d\<lparr>notes := \<lparr>node_id = nd, first = None, second = v\<rparr> # notes d\<rparr>
        in if fails InsertIndex then (Some BadAlloc, d1\<lparr>notes := tl (notes d1)\<rparr>)
           else (None, d1\<lparr>index := emplace k nd (index d1),
                           notes := set_first nd k (notes d1)\<rparr>))"

definition insert_front :: "(site \<Rightarrow> bool) \<Rightarrow> hid \<Rightarrow> 'k \<Rightarrow> 'v \<Rightarrow> ('k, 'v) world
    \<Rightarrow> (error + unit) \<times> ('k, 'v) world" where
  "insert_front fails h k v w =
     (if (case data (handles w ! h) of None \<Rightarrow> False | Some p \<Rightarrow> index (heap w p) k \<noteq> None)
      then (Inl (InvalidArgument ''Key already exists''), w)
      else
        case (case data (handles w ! h) of
                None \<Rightarrow>
                  (case make_shared_empty fails w of
                     (Inl e, w') \<Rightarrow> (Inl e, w')
                   | (Inr q, w') \<Rightarrow>
                       (Inr (), w'\<lparr>handles := (handles w')[h := (handles w' ! h)\<lparr>data := Some q\<rparr>]\<rparr>))
              | Some p \<Rightarrow> (Inr (), w)) of
          (Inl e, w0) \<Rightarrow> (Inl e, w0)
        | (Inr _, w0) \<Rightarrow>
            (case going_to_edit fails h w0 of
               (Inl e, w1) \<Rightarrow> (Inl e, w1)
             | (Inr None, w1) \<Rightarrow> (Inl Undefined, w1)
             | (Inr (Some nd), w1) \<Rightarrow>
                 (case emplace_front_note fails k v (heap w1 nd) of
                    (Some e, d) \<Rightarrow> (Inl e, w1\<lparr>heap := (heap w1)(nd := d)\<rparr>)
                  | (None, d) \<Rightarrow>
                      (Inr (), successful_edit h (Some nd) (w1\<lparr>heap := (heap w1)(nd := d)\<rparr>)))))"

text \<open>
  The part of \<^verbatim>\<open>insert_after\<close> that works on \<^verbatim>\<open>*new_data\<close>; the handler erases the
  new node.
\<close>

definition insert_note_after :: "(site \<Rightarrow> bool) \<Rightarrow> 'k \<Rightarrow> 'k \<Rightarrow> 'v \<Rightarrow> ('k, 'v) data_t
    \<Rightarrow> error option \<times> ('k, 'v) data_t" where
  "insert_note_after fails prev_k k v d =
     (case index d prev_k of
        None \<Rightarrow> (Some Undefined, d)
      | Some prev_it \<Rightarrow>
          if fails InsertNote then (Some BadAlloc, d)
          else
            let nd = new_node (notes d);
                d1 = d\<lparr>notes := insert_next prev_it \<lparr>node_id = nd, first = None, second = v\<rparr> (notes d)\<rparr>
            in if fails InsertIndex then (Some BadAlloc, d1\<lparr>notes := erase_node nd (notes d1)\<rparr>)
               else (None, d1\<lparr>index := emplace k nd (index d1),
                               notes := set_first nd k (notes d1)\<rparr>))"

definition insert_after :: "(site \<Rightarrow> bool) \<Rightarrow> hid \<Rightarrow> 'k \<Rightarrow> 'k \<Rightarrow> 'v \<Rightarrow> ('k, 'v) world
    \<Rightarrow> (error + unit) \<times> ('k, 'v) world" where
  "insert_after fails h prev_k k v w =
     (case data (handles w ! h) of
        None \<Rightarrow> (Inl (InvalidArgument ''Prev_key not found''), w)
      | Some p \<Rightarrow>
          if index (heap w p) prev_k = None then (Inl (InvalidArgument ''Prev_key not found''), w)
          else if index (heap w p) k \<noteq> None then (Inl (InvalidArgument ''Key already exists''), w)
          else
            (case going_to_edit fails h w of
               (Inl e, w1) \<Rightarrow> (Inl e, w1)
             | (Inr None, w1) \<Rightarrow> (Inl Undefined, w1)
             | (Inr (Some nd), w1) \<Rightarrow>
                 (case insert_note_after fails prev_k k v (heap w1 nd) of
                    (Some e, d) \<Rightarrow> (Inl e, w1\<lparr>heap := (heap w1)(nd := d)\<rparr>)
                  | (None, d) \<Rightarrow>
                      (Inr (), successful_edit h (Some nd) (w1\<lparr>heap := (heap w1)(nd := d)\<rparr>)))))"

subsection \<open>Removal, reading, size and clear\<close>

definition size_binder :: "hid \<Rightarrow> ('k, 'v) world \<Rightarrow> nat" where
  "size_binder h w =
     (case data (handles w ! h) of None \<Rightarrow> 0 | Some p \<Rightarrow> length (notes (heap w p)))"

text \<open>\<^verbatim>\<open>remove(const K &k)\<close>.\<close>

definition remove_key :: "(site \<Rightarrow> bool) \<Rightarrow> hid \<Rightarrow> 'k \<Rightarrow> ('k, 'v) world
    \<Rightarrow> (error + unit) \<times> ('k, 'v) world" where
  "remove_key fails h k w =
     (case data (handles w ! h) of
        None \<Rightarrow> (Inl (InvalidArgument ''Key not found''), w)
      | Some p \<Rightarrow>
          if index (heap w p) k = None then (Inl (InvalidArgument ''Key not found''), w)
          else
            (case going_to_edit fails h w of
               (Inl e, w1) \<Rightarrow> (Inl e, w1)
             | (Inr None, w1) \<Rightarrow> (Inl Undefined, w1)
             | (Inr (Some nd), w1) \<Rightarrow>
                 (case index (heap w1 nd) k of
                    None \<Rightarrow> (Inl Undefined, w1)
                  | Some it_notes \<Rightarrow>
                      (Inr (),
                       successful_edit h (Some nd)
                         (w1\<lparr>heap := (heap w1)
                                (nd := (heap w1 nd)\<lparr>index := (index (heap w1 nd))(k := None),
                                                     notes := erase_node it_notes (notes (heap w1 nd))\<rparr>)\<rparr>)))))"

text \<open>\<^verbatim>\<open>remove()\<close>: the key of the first note, read through its key pointer.\<close>

definition remove_first :: "(site \<Rightarrow> bool) \<Rightarrow> hid \<Rightarrow> ('k, 'v) world
    \<Rightarrow> (error + unit) \<times> ('k, 'v) world" where
  "remove_first fails h w =
     (if size_binder h w = 0 then (Inl (InvalidArgument ''Empty binder''), w)
      else
        case data (handles w ! h) of
          None \<Rightarrow> (Inl Undefined, w)
        | Some p \<Rightarrow>
            (case notes (heap w p) of
               [] \<Rightarrow> (Inl Undefined, w)
             | n # _ \<Rightarrow>
                 (case first n of
                    None \<Rightarrow> (Inl Undefined, w)
                  | Some k \<Rightarrow> remove_key fails h k w)))"

text \<open>
  The reference \<^verbatim>\<open>V&\<close> that the mutable \<^verbatim>\<open>read\<close> returns is the place of the value:
  the snapshot's address and the node. The caller reads and writes through it later.
\<close>

type_synonym vref = "addr \<times> node"

definition read :: "(site \<Rightarrow> bool) \<Rightarrow> hid \<Rightarrow> 'k \<Rightarrow> ('k, 'v) world
    \<Rightarrow> (error + vref) \<times> ('k, 'v) world" where
  "read fails h k w =
     (case data (handles w ! h) of
        None \<Rightarrow> (Inl (InvalidArgument ''Key not found''), w)
      | Some p \<Rightarrow>
          if index (heap w p) k = None then (Inl (InvalidArgument ''Key not found''), w)
          else
            (case going_to_edit fails h w of
               (Inl e, w1) \<Rightarrow> (Inl e, w1)
             | (Inr None, w1) \<Rightarrow> (Inl Undefined, w1)
             | (Inr (Some nd), w1) \<Rightarrow>
                 (case index (heap w1 nd) k of
                    None \<Rightarrow> (Inl Undefined, w1)
                  | Some it_index \<Rightarrow>
                      (Inr (nd, it_index),
                       set_unsharable h True (successful_edit h (Some nd) w1)))))"

definition ref_get :: "('k, 'v) world \<Rightarrow> vref \<Rightarrow> 'v option" where
  "ref_get w r = map_option second (find_node (snd r) (notes (heap w (fst r))))"

definition ref_set :: "vref \<Rightarrow> 'v \<Rightarrow> ('k, 'v) world \<Rightarrow> ('k, 'v) world" where
  "ref_set r v w =
     w\<lparr>heap := (heap w)(fst r := (heap w (fst r))\<lparr>notes := set_second (snd r) v (notes (heap w (fst r)))\<rparr>)\<rparr>"

text \<open>The \<^verbatim>\<open>const\<close> overload of \<^verbatim>\<open>read\<close>: the state stays as it is.\<close>

definition read_const :: "hid \<Rightarrow> 'k \<Rightarrow> ('k, 'v) world \<Rightarrow> error + 'v" where
  "read_const h k w =
     (case data (handles w ! h) of
        None \<Rightarrow> Inl (InvalidArgument ''Key not found'')
      | Some p \<Rightarrow>
          (case index (heap w p) k of
             None \<Rightarrow> Inl (InvalidArgument ''Key not found'')
           | Some it_index \<Rightarrow>
               (case find_node it_index (notes (heap w p)) of
                  None \<Rightarrow> Inl Undefined
                | Some n \<Rightarrow> Inr (second n))))"

definition clear :: "hid \<Rightarrow> ('k, 'v) world \<Rightarrow> ('k, 'v) world" where
  "clear h w = w\<lparr>handles := (handles w)[h := \<lparr>data = None, unsharable = False\<rparr>]\<rparr>"

subsection \<open>\<^verbatim>\<open>const_iterator\<close>\<close>

text \<open>
  A \<^verbatim>\<open>notes_t::const_iterator\<close>: a node of the list of a snapshot, the end of that
  list, or the singular value of a default-initialised iterator.
\<close>

datatype list_iterator = Singular | At addr node | End addr

record const_iterator =
  it :: list_iterator
  null_data :: bool

definition cbegin :: "hid \<Rightarrow> ('k, 'v) world \<Rightarrow> const_iterator" where
  "cbegin h w =
     (case data (handles w ! h) of
        None \<Rightarrow> \<lparr>it = Singular, null_data = True\<rparr>
      | Some p \<Rightarrow>
          \<lparr>it = (case notes (heap w p) of [] \<Rightarrow> End p | n # _ \<Rightarrow> At p (node_id n)),
           null_data = False\<rparr>)"

definition cend :: "hid \<Rightarrow> ('k, 'v) world \<Rightarrow> const_iterator" where
  "cend h w =
     (case data (handles w ! h) of
        None \<Rightarrow> \<lparr>it = Singular, null_data = True\<rparr>
      | Some p \<Rightarrow> \<lparr>it = End p, null_data = False\<rparr>)"

text \<open>\<^verbatim>\<open>operator==\<close> and \<^verbatim>\<open>operator!=\<close>.\<close>

definition iterator_eq :: "const_iterator \<Rightarrow> const_iterator \<Rightarrow> bool" where
  "iterator_eq a b =
     (if null_data a \<or> null_data b then null_data a = null_data b else it a = it b)"

definition iterator_neq :: "const_iterator \<Rightarrow> const_iterator \<Rightarrow> bool" where
  "iterator_neq a b = (\<not> iterator_eq a b)"

text \<open>
  The iterator after the node \<open>nd\<close> in the list of the snapshot at \<open>p\<close>; \<open>None\<close>
  when the list has no such node.
\<close>

primrec node_after :: "addr \<Rightarrow> node \<Rightarrow> ('k, 'v) entry list \<Rightarrow> list_iterator option" where
  "node_after p nd [] = None"
| "node_after p nd (n # ns) =
     (if node_id n = nd
      then Some (case ns of [] \<Rightarrow> End p | n' # _ \<Rightarrow> At p (node_id n'))
      else node_after p nd ns)"

text \<open>
  \<^verbatim>\<open>operator++\<close> and \<^verbatim>\<open>operator*\<close>; \<open>None\<close> where C++ leaves the step undefined (the
  end or a singular iterator advanced or dereferenced).
\<close>

definition increment :: "('k, 'v) world \<Rightarrow> const_iterator \<Rightarrow> const_iterator option" where
  "increment w c =
     (case it c of
        At p nd \<Rightarrow> map_option (\<lambda>i. c\<lparr>it := i\<rparr>) (node_after p nd (notes (heap w p)))
      | _ \<Rightarrow> None)"

definition dereference :: "('k, 'v) world \<Rightarrow> const_iterator \<Rightarrow> 'v option" where
  "dereference w c =
     (case it c of
        At p nd \<Rightarrow> map_option second (find_node nd (notes (heap w p)))
      | _ \<Rightarrow> None)"

text \<open>
  The caller's loop \<^verbatim>\<open>for (auto i = b.cbegin(); i != b.cend(); ++i)\<close> collecting
  \<^verbatim>\<open>*i\<close>. It returns \<open>None\<close> when it does not stop or takes an undefined step.
\<close>

partial_function (option) iterate :: "('k, 'v) world \<Rightarrow> const_iterator \<Rightarrow> const_iterator
    \<Rightarrow> 'v list option" where
  "iterate w c e =
     (if iterator_neq c e
      then (case dereference w c of
              None \<Rightarrow> None
            | Some v \<Rightarrow>
                (case increment w c of
                   None \<Rightarrow> None
                 | Some c' \<Rightarrow> Option.bind (iterate w c' e) (\<lambda>vs. Some (v # vs))))
      else Some [])"

declare iterate.simps [code]

definition values_of :: "hid \<Rightarrow> ('k, 'v) world \<Rightarrow> 'v list option" where
  "values_of h w = iterate w (cbegin h w) (cend h w)"

subsection \<open>Calls, observations and invariants\<close>

text \<open>The mutating calls on one binder, and a sequence of them that stops at the first exception.\<close>

datatype ('k, 'v) call =
  InsertFront 'k 'v
| InsertAfter 'k 'k 'v
| RemoveFirst
| RemoveKey 'k
| ReadMutable 'k

fun perform :: "(site \<Rightarrow> bool) \<Rightarrow> hid \<Rightarrow> ('k, 'v) call \<Rightarrow> ('k, 'v) world
    \<Rightarrow> (error + unit) \<times> ('k, 'v) world" where
  "perform fails h (InsertFront k v) w = insert_front fails h k v w"
| "perform fails h (InsertAfter prev_k k v) w = insert_after fails h prev_k k v w"
| "perform fails h RemoveFirst w = remove_first fails h w"
| "perform fails h (RemoveKey k) w = remove_key fails h k w"
| "perform fails h (ReadMutable k) w =
     (case read fails h k w of (Inl e, w') \<Rightarrow> (Inl e, w') | (Inr _, w') \<Rightarrow> (Inr (), w'))"

fun run :: "(site \<Rightarrow> bool) \<Rightarrow> hid \<Rightarrow> ('k, 'v) call list \<Rightarrow> ('k, 'v) world
    \<Rightarrow> (error + unit) \<times> ('k, 'v) world" where
  "run fails h [] w = (Inr (), w)"
| "run fails h (c # cs) w =
     (case perform fails h c w of
        (Inl e, w') \<Rightarrow> (Inl e, w')
      | (Inr _, w') \<Rightarrow> run fails h cs w')"

text \<open>Every operation of the class, on the binders named by position.\<close>

datatype ('k, 'v) operation =
  DefaultConstruct
| CopyConstruct hid
| MoveConstruct hid
| CopyAssign hid hid
| MoveAssign hid hid
| Mutate hid "('k, 'v) call"
| ReadConst hid 'k
| Size hid
| Clear hid

fun apply_operation :: "(site \<Rightarrow> bool) \<Rightarrow> ('k, 'v) operation \<Rightarrow> ('k, 'v) world \<Rightarrow> ('k, 'v) world" where
  "apply_operation fails DefaultConstruct w = snd (binder_default w)"
| "apply_operation fails (CopyConstruct other) w = snd (binder_copy fails other w)"
| "apply_operation fails (MoveConstruct other) w = snd (binder_move other w)"
| "apply_operation fails (CopyAssign h src) w = snd (copy_assign fails h src w)"
| "apply_operation fails (MoveAssign h src) w = move_assign h src w"
| "apply_operation fails (Mutate h c) w = snd (perform fails h c w)"
| "apply_operation fails (ReadConst h k) w = w"
| "apply_operation fails (Size h) w = w"
| "apply_operation fails (Clear h) w = clear h w"

text \<open>The binders an operation names exist.\<close>

fun names_binders :: "('k, 'v) world \<Rightarrow> ('k, 'v) operation \<Rightarrow> bool" where
  "names_binders w DefaultConstruct = True"
| "names_binders w (CopyConstruct other) = (other < length (handles w))"
| "names_binders w (MoveConstruct other) = (other < length (handles w))"
| "names_binders w (CopyAssign h src) = (h < length (handles w) \<and> src < length (handles w))"
| "names_binders w (MoveAssign h src) = (h < length (handles w) \<and> src < length (handles w))"
| "names_binders w (Mutate h c) = (h < length (handles w))"
| "names_binders w (ReadConst h k) = (h < length (handles w))"
| "names_binders w (Size h) = (h < length (handles w))"
| "names_binders w (Clear h) = (h < length (handles w))"

text \<open>What a binder shows: whether it holds a key, and its entries in list order.\<close>

definition key_present :: "hid \<Rightarrow> 'k \<Rightarrow> ('k, 'v) world \<Rightarrow> bool" where
  "key_present h k w =
     (case data (handles w ! h) of None \<Rightarrow> False | Some p \<Rightarrow> index (heap w p) k \<noteq> None)"

definition entries_of :: "('k, 'v) data_t \<Rightarrow> ('k option \<times> 'v) list" where
  "entries_of d = map (\<lambda>n. (first n, second n)) (notes d)"

definition contents :: "hid \<Rightarrow> ('k, 'v) world \<Rightarrow> ('k option \<times> 'v) list" where
  "contents h w = (case data (handles w ! h) of None \<Rightarrow> [] | Some p \<Rightarrow> entries_of (heap w p))"

definition keys_of :: "hid \<Rightarrow> ('k, 'v) world \<Rightarrow> 'k option list" where
  "keys_of h w = map fst (contents h w)"

text \<open>
  The structural invariant of a snapshot: the nodes are distinct, every entry points to
  a key that the index maps to the entry's node, and every index entry designates a
  node whose entry points to its key.
\<close>

definition data_ok :: "('k, 'v) data_t \<Rightarrow> bool" where
  "data_ok d =
     (distinct (map node_id (notes d))
      \<and> (\<forall>n \<in> set (notes d). \<exists>k. first n = Some k \<and> index d k = Some (node_id n))
      \<and> (\<forall>k nd. index d k = Some nd \<longrightarrow> (\<exists>n \<in> set (notes d). node_id n = nd \<and> first n = Some k)))"

definition world_ok :: "('k, 'v) world \<Rightarrow> bool" where
  "world_ok w = (\<forall>b \<in> set (handles w). \<forall>p. data b = Some p \<longrightarrow> data_ok (heap w p))"

text \<open>A binder whose flag is set and that holds a snapshot is the only one holding it.\<close>

definition unsharable_alone :: "('k, 'v) world \<Rightarrow> bool" where
  "unsharable_alone w =
     (\<forall>b \<in> set (handles w). \<forall>p. unsharable b \<and> data b = Some p \<longrightarrow> use_count w p = 1)"

subsection \<open>The logical order\<close>

text \<open>
  The order the specification describes, on a plain list of pairs: \<^verbatim>\<open>insert_front\<close>
  places first, \<^verbatim>\<open>insert_after\<close> places immediately after the entry of the given key,
  the removals delete, and a mutable read changes nothing.
\<close>

fun place_after :: "'k \<Rightarrow> 'k \<times> 'v \<Rightarrow> ('k \<times> 'v) list \<Rightarrow> ('k \<times> 'v) list" where
  "place_after p x [] = []"
| "place_after p x (y # ys) = (if fst y = p then y # x # ys else y # place_after p x ys)"

fun logical_step :: "('k, 'v) call \<Rightarrow> ('k \<times> 'v) list \<Rightarrow> ('k \<times> 'v) list" where
  "logical_step (InsertFront k v) xs = (k, v) # xs"
| "logical_step (InsertAfter p k v) xs = place_after p (k, v) xs"
| "logical_step RemoveFirst xs = tl xs"
| "logical_step (RemoveKey k) xs = filter (\<lambda>x. fst x \<noteq> k) xs"
| "logical_step (ReadMutable k) xs = xs"

fun logical_order :: "('k, 'v) call list \<Rightarrow> ('k \<times> 'v) list \<Rightarrow> ('k \<times> 'v) list" where
  "logical_order [] xs = xs"
| "logical_order (c # cs) xs = logical_order cs (logical_step c xs)"

text \<open>
  The calls that the specification accepts on a binder with the entries \<open>xs\<close>:
  \<^verbatim>\<open>insert_front\<close> of a key that is absent, \<^verbatim>\<open>insert_after\<close> of an absent key after a
  key that is present, \<^verbatim>\<open>remove()\<close> when there is an entry, \<^verbatim>\<open>remove(k)\<close> and the
  mutable \<^verbatim>\<open>read\<close> of a key that is present; and a sequence of calls each accepted
  where it is made.
\<close>

fun accepted :: "('k, 'v) call \<Rightarrow> ('k \<times> 'v) list \<Rightarrow> bool" where
  "accepted (InsertFront k v) xs = (k \<notin> fst ` set xs)"
| "accepted (InsertAfter p k v) xs = (p \<in> fst ` set xs \<and> k \<notin> fst ` set xs)"
| "accepted RemoveFirst xs = (xs \<noteq> [])"
| "accepted (RemoveKey k) xs = (k \<in> fst ` set xs)"
| "accepted (ReadMutable k) xs = (k \<in> fst ` set xs)"

fun accepted_all :: "('k, 'v) call list \<Rightarrow> ('k \<times> 'v) list \<Rightarrow> bool" where
  "accepted_all [] xs = True"
| "accepted_all (c # cs) xs = (accepted c xs \<and> accepted_all cs (logical_step c xs))"

text \<open>The number of insertions and of removals in a sequence of calls.\<close>

fun insertions :: "('k, 'v) call list \<Rightarrow> nat" where
  "insertions [] = 0"
| "insertions (InsertFront k v # cs) = Suc (insertions cs)"
| "insertions (InsertAfter p k v # cs) = Suc (insertions cs)"
| "insertions (c # cs) = insertions cs"

fun removals :: "('k, 'v) call list \<Rightarrow> nat" where
  "removals [] = 0"
| "removals (RemoveFirst # cs) = Suc (removals cs)"
| "removals (RemoveKey k # cs) = Suc (removals cs)"
| "removals (c # cs) = removals cs"

subsection \<open>Concrete states\<close>

text \<open>The state with no binder, and the states of the scenario of the specification.\<close>

definition initial_world :: "(nat, string) world" where
  "initial_world = \<lparr>handles = [], heap = (\<lambda>p. empty_data)\<rparr>"

definition scenario_0 :: "(nat, string) world" where
  "scenario_0 = snd (binder_default initial_world)"

definition scenario_1 :: "(nat, string) world" where
  "scenario_1 = snd (insert_front no_fault 0 1 ''a'' scenario_0)"

definition scenario_2 :: "(nat, string) world" where
  "scenario_2 = snd (insert_front no_fault 0 2 ''b'' scenario_1)"

definition scenario_3 :: "(nat, string) world" where
  "scenario_3 = snd (insert_after no_fault 0 2 3 ''c'' scenario_2)"

text \<open>
  \<^verbatim>\<open>b.read(3)\<close> on a binder that is not \<^verbatim>\<open>const\<close> selects the mutable overload;
  \<open>scenario_4\<close> is the state after it, \<open>scenario_5\<close> after \<^verbatim>\<open>b2 = b\<close> (the copy
  constructor) and \<open>scenario_6\<close> after \<^verbatim>\<open>b.remove(1)\<close>.
\<close>

definition scenario_4 :: "(nat, string) world" where
  "scenario_4 = snd (read no_fault 0 3 scenario_3)"

definition scenario_5 :: "(nat, string) world" where
  "scenario_5 = snd (binder_copy no_fault 0 scenario_4)"

definition scenario_6 :: "(nat, string) world" where
  "scenario_6 = snd (remove_key no_fault 0 1 scenario_5)"

text \<open>The same with the \<^verbatim>\<open>const\<close> overload of \<^verbatim>\<open>read\<close>, which leaves the state alone.\<close>

definition scenario_5c :: "(nat, string) world" where
  "scenario_5c = snd (binder_copy no_fault 0 scenario_3)"

definition scenario_6c :: "(nat, string) world" where
  "scenario_6c = snd (remove_key no_fault 0 1 scenario_5c)"


subsection \<open>Auxiliary notions\<close>

text \<open>
  The snapshot a mutating call on a binder holding \<open>p\<close> works on: a new one when \<open>p\<close>
  is shared, \<open>p\<close> itself otherwise.
\<close>

definition edit_target :: "('k, 'v) world \<Rightarrow> addr \<Rightarrow> addr" where
  "edit_target w p = (if use_count w p > 1 then new_addr w else p)"

text \<open>No other binder of \<open>hs\<close> holds the snapshot of \<open>b\<close>.\<close>

definition exclusive :: "binder_t list \<Rightarrow> hid \<Rightarrow> binder_t \<Rightarrow> bool" where
  "exclusive hs h b = (\<forall>j < length hs. j \<noteq> h \<longrightarrow> data (hs ! j) \<noteq> data b)"

text \<open>\<open>unsharable_alone\<close> on the list of binders, by position.\<close>

definition alone :: "binder_t list \<Rightarrow> bool" where
  "alone hs = (\<forall>i < length hs. \<forall>j < length hs.
      unsharable (hs ! i) \<longrightarrow> data (hs ! i) \<noteq> None \<longrightarrow> data (hs ! j) = data (hs ! i) \<longrightarrow> j = i)"

text \<open>The node of the first entry of a list that points to the key \<open>k\<close>.\<close>

definition key_node :: "'k \<Rightarrow> ('k, 'v) entry list \<Rightarrow> node option" where
  "key_node k ns = map_option node_id (find (\<lambda>n. first n = Some k) ns)"

text \<open>The iterator at the first node of a list, or at its end.\<close>

definition start_of :: "addr \<Rightarrow> ('k, 'v) entry list \<Rightarrow> list_iterator" where
  "start_of p ns = (case ns of [] \<Rightarrow> End p | n # _ \<Rightarrow> At p (node_id n))"

section \<open>Results for funclist.h\<close>

lemma create_fold:
  "fst (create xs (push_element render) (els, n)) = els @ rev (map (\<lambda>x. render x @ '';'') xs)"
  by (induction xs) (simp_all add: empty_flist_def cons_def push_element_def)

lemma append_reversed_concat:
  "append_reversed r es = r @ concat (rev es)"
  by (induction es) simp_all

lemma concat_terminated:
  "ss \<noteq> [] \<Longrightarrow> concat (map (\<lambda>s. s @ '';'') ss) = separated ss @ '';''"
  by (induction ss rule: separated.induct) simp_all

text \<open>
  C10. For every finite sequence of elements \<open>xs\<close>, \<open>as_string\<close> of the list created
  from \<open>xs\<close> is \<^verbatim>\<open>"["\<close>, the renderings of the elements in construction order
  separated by \<^verbatim>\<open>';'\<close>, and \<^verbatim>\<open>"]"\<close>; for the empty list it is \<^verbatim>\<open>"[]"\<close>.
\<close>

theorem as_string_create:
  "as_string render (create xs) = bracketed render xs
   \<and> as_string render empty_flist = ''[]''"
proof
  show "as_string render (create xs) = bracketed render xs"
  proof (cases xs)
    case Nil
    then show ?thesis
      by (simp add: as_string_def bracketed_def empty_flist_def)
  next
    case (Cons y ys)
    have "concat (map (\<lambda>x. render x @ '';'') xs) = separated (map render xs) @ '';''"
      using concat_terminated [of "map render xs"] Cons by (simp add: comp_def)
    then show ?thesis
      by (simp add: as_string_def bracketed_def create_fold append_reversed_concat
          rev_map [symmetric] butlast_append Let_def)
  qed
  show "as_string render empty_flist = ''[]''"
    by (simp add: as_string_def empty_flist_def)
qed

section \<open>Results for poly.h\<close>

declare mul_inner.simps [simp del] mul_outer.simps [simp del]

subsection \<open>Conversions and operands of one type\<close>











lemma common_type_same [simp]: "common_type t t = t"
  by (cases t) simp_all


subsection \<open>Evaluation and product over one type\<close>













subsection \<open>No overflow below the bound\<close>



lemma magnitude_Nil [simp]: "magnitude [] x = 0"
  by (simp add: magnitude_def)



















subsection \<open>Evaluation of a product\<close>




section \<open>Results for binder.h\<close>

subsection \<open>Use counts and new addresses\<close>

lemma max_addr_ge: "b \<in> set bs \<Longrightarrow> data b = Some p \<Longrightarrow> p \<le> max_addr bs"
  by (induction bs) (auto split: option.splits)

lemma new_addr_fresh: "b \<in> set (handles w) \<Longrightarrow> data b \<noteq> Some (new_addr w)"
  using max_addr_ge [of b "handles w" "new_addr w"] by (auto simp: new_addr_def)

lemma new_addr_fresh_nth: "j < length (handles w) \<Longrightarrow> data (handles w ! j) \<noteq> Some (new_addr w)"
  by (simp add: new_addr_fresh)

lemma use_count_new_addr: "use_count w (new_addr w) = 0"
  by (simp add: use_count_def new_addr_fresh)

lemma use_count_card:
  "use_count w p = card {i. i < length (handles w) \<and> data (handles w ! i) = Some p}"
  by (simp add: use_count_def length_filter_conv_card)

lemma use_count_two:
  assumes "i < length (handles w)" "j < length (handles w)" "i \<noteq> j"
    and "data (handles w ! i) = Some p" "data (handles w ! j) = Some p"
  shows "use_count w p > 1"
proof -
  have "{i, j} \<subseteq> {i. i < length (handles w) \<and> data (handles w ! i) = Some p}"
    using assms by auto
  then have "card {i, j} \<le> use_count w p"
    unfolding use_count_card by (intro card_mono) auto
  with assms(3) show ?thesis by simp
qed

lemma use_count_one_iff:
  assumes "i < length (handles w)" "data (handles w ! i) = Some p"
  shows "use_count w p = 1 \<longleftrightarrow> (\<forall>j < length (handles w). data (handles w ! j) = Some p \<longrightarrow> j = i)"
proof
  assume one: "use_count w p = 1"
  show "\<forall>j < length (handles w). data (handles w ! j) = Some p \<longrightarrow> j = i"
  proof (intro allI impI)
    fix j assume j: "j < length (handles w)" "data (handles w ! j) = Some p"
    show "j = i"
    proof (rule ccontr)
      assume "j \<noteq> i"
      then have "use_count w p > 1"
        using use_count_two [of i w j p] assms j by simp
      with one show False by simp
    qed
  qed
next
  assume only: "\<forall>j < length (handles w). data (handles w ! j) = Some p \<longrightarrow> j = i"
  have "{j. j < length (handles w) \<and> data (handles w ! j) = Some p} = {i}"
    using assms only by blast
  then show "use_count w p = 1" by (simp only: use_count_card card.empty card_insert_if finite.emptyI empty_iff if_False)
qed

lemma use_count_pos:
  "i < length (handles w) \<Longrightarrow> data (handles w ! i) = Some p \<Longrightarrow> use_count w p > 0"
  using nth_mem [of i "handles w"] by (auto simp: use_count_def filter_empty_conv)

lemma use_count_handles_cong: "handles w' = handles w \<Longrightarrow> use_count w' = use_count w"
  by (simp add: use_count_def fun_eq_iff)

subsection \<open>Which snapshot a call works on\<close>

lemma make_shared_copy_Inl: "make_shared_copy fails d w = (Inl e, w') \<Longrightarrow> w' = w"
  unfolding make_shared_copy_def by (simp split: if_splits sum.splits)

lemma make_shared_copy_Inr:
  "make_shared_copy fails d w = (Inr q, w') \<Longrightarrow>
   q = new_addr w \<and> (\<exists>c. copy_data_t fails d = Inr c \<and> w' = w\<lparr>heap := (heap w)(new_addr w := c)\<rparr>)"
  unfolding make_shared_copy_def by (simp split: if_splits sum.splits) blast

lemma going_to_edit_unshared:
  "data (handles w ! h) = Some p \<Longrightarrow> \<not> use_count w p > 1 \<Longrightarrow>
   going_to_edit fails h w = (Inr (Some p), w)"
  by (simp add: going_to_edit_def)

lemma going_to_edit_shared:
  "data (handles w ! h) = Some p \<Longrightarrow> use_count w p > 1 \<Longrightarrow>
   going_to_edit fails h w =
     (if fails AllocData then (Inl BadAlloc, w)
      else case copy_data_t fails (heap w p) of
        Inl e \<Rightarrow> (Inl e, w)
      | Inr c \<Rightarrow> (Inr (Some (new_addr w)), w\<lparr>heap := (heap w)(new_addr w := c)\<rparr>))"
  by (simp add: going_to_edit_def make_shared_copy_def split: sum.splits)

lemma going_to_edit_target:
  assumes "data (handles w ! h) = Some p" "going_to_edit fails h w = (r, w1)"
  shows "handles w1 = handles w
    \<and> (\<forall>a. a \<noteq> edit_target w p \<longrightarrow> heap w1 a = heap w a)
    \<and> (case r of Inl e \<Rightarrow> w1 = w | Inr nd \<Rightarrow> nd = Some (edit_target w p))"
proof (cases "use_count w p > 1")
  case False
  with assms show ?thesis
    by (auto simp: going_to_edit_unshared edit_target_def)
next
  case True
  with assms show ?thesis
    by (auto simp: going_to_edit_shared edit_target_def split: if_splits sum.splits)
qed

lemma frame_insert_front:
  assumes "h < length (handles w)" "data (handles w ! h) = Some p"
    and "insert_front fails h k v w = (r, w')"
  shows "(\<forall>a. a \<noteq> edit_target w p \<longrightarrow> heap w' a = heap w a)
    \<and> (case r of
         Inr _ \<Rightarrow> handles w' = (handles w)[h := \<lparr>data = Some (edit_target w p), unsharable = False\<rparr>]
       | Inl _ \<Rightarrow> handles w' = handles w)"
proof -
  obtain r1 w1 where g: "going_to_edit fails h w = (r1, w1)"
    by (cases "going_to_edit fails h w")
  note t = going_to_edit_target [OF assms(2) g]
  obtain eo d where e: "emplace_front_note fails k v (heap w1 (edit_target w p)) = (eo, d)"
    by (cases "emplace_front_note fails k v (heap w1 (edit_target w p))")
  from assms(2,3) g t e show ?thesis
    by (cases r1; cases eo)
       (auto simp: insert_front_def successful_edit_def split: if_splits)
qed

lemma frame_insert_after:
  assumes "h < length (handles w)" "data (handles w ! h) = Some p"
    and "insert_after fails h prev_k k v w = (r, w')"
  shows "(\<forall>a. a \<noteq> edit_target w p \<longrightarrow> heap w' a = heap w a)
    \<and> (case r of
         Inr _ \<Rightarrow> handles w' = (handles w)[h := \<lparr>data = Some (edit_target w p), unsharable = False\<rparr>]
       | Inl _ \<Rightarrow> handles w' = handles w)"
proof -
  obtain r1 w1 where g: "going_to_edit fails h w = (r1, w1)"
    by (cases "going_to_edit fails h w")
  note t = going_to_edit_target [OF assms(2) g]
  obtain eo d where e: "insert_note_after fails prev_k k v (heap w1 (edit_target w p)) = (eo, d)"
    by (cases "insert_note_after fails prev_k k v (heap w1 (edit_target w p))")
  from assms(2,3) g t e show ?thesis
    by (cases r1; cases eo)
       (auto simp: insert_after_def successful_edit_def split: if_splits)
qed

lemma frame_remove_key:
  assumes "h < length (handles w)" "data (handles w ! h) = Some p"
    and "remove_key fails h k w = (r, w')"
  shows "(\<forall>a. a \<noteq> edit_target w p \<longrightarrow> heap w' a = heap w a)
    \<and> (case r of
         Inr _ \<Rightarrow> handles w' = (handles w)[h := \<lparr>data = Some (edit_target w p), unsharable = False\<rparr>]
       | Inl _ \<Rightarrow> handles w' = handles w)"
proof -
  obtain r1 w1 where g: "going_to_edit fails h w = (r1, w1)"
    by (cases "going_to_edit fails h w")
  note t = going_to_edit_target [OF assms(2) g]
  from assms(2,3) g t show ?thesis
    by (cases r1; cases "index (heap w1 (edit_target w p)) k")
       (auto simp: remove_key_def successful_edit_def split: if_splits)
qed

lemma frame_remove_first:
  assumes "h < length (handles w)" "data (handles w ! h) = Some p"
    and "remove_first fails h w = (r, w')"
  shows "(\<forall>a. a \<noteq> edit_target w p \<longrightarrow> heap w' a = heap w a)
    \<and> (case r of
         Inr _ \<Rightarrow> handles w' = (handles w)[h := \<lparr>data = Some (edit_target w p), unsharable = False\<rparr>]
       | Inl _ \<Rightarrow> handles w' = handles w)"
proof -
  have "(\<exists>e. remove_first fails h w = (Inl e, w))
      \<or> (\<exists>k. remove_first fails h w = remove_key fails h k w)"
    by (simp add: remove_first_def split: list.splits option.splits) blast
  then consider (rejected) e where "remove_first fails h w = (Inl e, w)"
    | (removes) k where "remove_first fails h w = remove_key fails h k w"
    by blast
  then show ?thesis
  proof cases
    case rejected
    with assms(3) show ?thesis by auto
  next
    case removes
    with assms(3) have "remove_key fails h k w = (r, w')" by simp
    from frame_remove_key [OF assms(1,2) this] show ?thesis .
  qed
qed

lemma frame_read:
  assumes "h < length (handles w)" "data (handles w ! h) = Some p"
    and "read fails h k w = (r, w')"
  shows "(\<forall>a. a \<noteq> edit_target w p \<longrightarrow> heap w' a = heap w a)
    \<and> (case r of
         Inr x \<Rightarrow> handles w' = (handles w)[h := \<lparr>data = Some (edit_target w p), unsharable = True\<rparr>]
                  \<and> fst x = edit_target w p
       | Inl _ \<Rightarrow> handles w' = handles w)"
proof -
  obtain r1 w1 where g: "going_to_edit fails h w = (r1, w1)"
    by (cases "going_to_edit fails h w")
  note t = going_to_edit_target [OF assms(2) g]
  from assms g t show ?thesis
    by (cases r1; cases "index (heap w1 (edit_target w p)) k")
       (auto simp: read_def successful_edit_def set_unsharable_def split: if_splits)
qed

lemma edit_target_shared:
  assumes "h < length (handles w)" "data (handles w ! h) = Some p" "use_count w p > 1"
  shows "edit_target w p = new_addr w \<and> new_addr w \<noteq> p \<and> use_count w (new_addr w) = 0"
  using assms new_addr_fresh_nth [of h w] by (auto simp: edit_target_def use_count_new_addr)

lemma rebuild_index_notes:
  "rebuild_index fails i ns idx = Inr (ns', idx') \<Longrightarrow> ns' = ns"
proof (induction ns arbitrary: i idx ns' idx')
  case Nil
  then show ?case by simp
next
  case (Cons n ns)
  then show ?case
    by (auto split: if_splits option.splits sum.splits)
qed

lemma copy_data_t_notes: "copy_data_t fails d = Inr c \<Longrightarrow> notes c = notes d"
  by (auto simp: copy_data_t_def dest: rebuild_index_notes split: if_splits sum.splits)

lemma read_success:
  assumes "h < length (handles w)" "read fails h k w = (Inr r, w1)"
  shows "\<exists>p. data (handles w ! h) = Some p
    \<and> handles w1 = (handles w)[h := \<lparr>data = Some (edit_target w p), unsharable = True\<rparr>]
    \<and> fst r = edit_target w p"
proof (cases "data (handles w ! h)")
  case None
  with assms show ?thesis by (simp add: read_def)
next
  case (Some p)
  from frame_read [OF assms(1) Some assms(2)] Some show ?thesis by simp
qed

lemma binder_copy_unsharable:
  assumes "unsharable (handles w ! h)" "data (handles w ! h) = Some p"
    and "binder_copy fails h w = (Inr h2, w2)"
  shows "h2 = length (handles w)
    \<and> (\<exists>c. copy_data_t fails (heap w p) = Inr c
          \<and> w2 = \<lparr>handles = handles w @ [\<lparr>data = Some (new_addr w), unsharable = False\<rparr>],
                  heap = (heap w)(new_addr w := c)\<rparr>)"
  using assms
  by (auto simp: binder_copy_def make_shared_copy_def split: if_splits sum.splits)

lemma going_to_edit_clone:
  assumes "data (handles w ! h) = Some p" "use_count w p > 1"
    and "going_to_edit fails h w = (Inr nd, w1)"
  shows "nd = Some (new_addr w) \<and> entries_of (heap w1 (new_addr w)) = entries_of (heap w p)"
proof -
  from assms obtain c where c: "copy_data_t fails (heap w p) = Inr c"
    and r: "nd = Some (new_addr w)" "w1 = w\<lparr>heap := (heap w)(new_addr w := c)\<rparr>"
    by (auto simp: going_to_edit_shared split: if_splits sum.splits)
  from copy_data_t_notes [OF c] r show ?thesis by (simp add: entries_of_def)
qed

lemma perform_frame:
  assumes "h < length (handles w)" "data (handles w ! h) = Some p"
    and "perform fails h c w = (r, w')"
  shows "(\<forall>a. a \<noteq> edit_target w p \<longrightarrow> heap w' a = heap w a)
    \<and> (case r of Inr _ \<Rightarrow> data (handles w' ! h) = Some (edit_target w p)
                | Inl _ \<Rightarrow> handles w' = handles w)"
proof (cases c)
  case (InsertFront k v)
  with frame_insert_front [OF assms(1,2), of fails k v r w'] assms(1,3) show ?thesis
    by (auto split: sum.splits)
next
  case (InsertAfter pk k v)
  with frame_insert_after [OF assms(1,2), of fails pk k v r w'] assms(1,3) show ?thesis
    by (auto split: sum.splits)
next
  case RemoveFirst
  with frame_remove_first [OF assms(1,2), of fails r w'] assms(1,3) show ?thesis
    by (auto split: sum.splits)
next
  case (RemoveKey k)
  with frame_remove_key [OF assms(1,2), of fails k r w'] assms(1,3) show ?thesis
    by (auto split: sum.splits)
next
  case (ReadMutable k)
  obtain r0 where rd: "read fails h k w = (r0, w')" and r: "r = map_sum id (\<lambda>_. ()) r0"
    using assms(3) ReadMutable by (cases "read fails h k w") (auto split: sum.splits)
  from frame_read [OF assms(1,2) rd] assms(1) r show ?thesis
    by (cases r0) auto
qed

subsection \<open>Concrete facts\<close>

lemma scenario_5c_facts:
  "length (handles scenario_5c) = 2" "data (handles scenario_5c ! 0) = Some 1"
  "data (handles scenario_5c ! 1) = Some 1"
  "use_count scenario_5c 1 = 2" "new_addr scenario_5c = 2"
  "fst (perform no_fault 0 (RemoveKey 1) scenario_5c) = Inr ()"
  "entries_of (heap scenario_5c 1) = [(Some 2, ''b''), (Some 3, ''c''), (Some 1, ''a'')]"
  by code_simp+

lemma scenario_4_facts:
  "length (handles scenario_4) = 1" "data (handles scenario_4 ! 0) = Some 1"
  "unsharable (handles scenario_4 ! 0)"
  "use_count scenario_4 1 = 1"
  "fst (perform no_fault 0 (InsertFront 9 ''z'') scenario_4) = Inr ()"
  "fst (read no_fault 0 3 scenario_3) = Inr (1, 3)"
  "fst (binder_copy no_fault 0 scenario_4) = Inr 1"
  "contents 0 scenario_4 = [(Some 2, ''b''), (Some 3, ''c''), (Some 1, ''a'')]"
  "contents 0 (ref_set (1, 3) ''z'' scenario_5) = [(Some 2, ''b''), (Some 3, ''z''), (Some 1, ''a'')]"
  "length (handles scenario_3) = 1"
  by code_simp+

lemma scenario_run_facts:
  "length (handles scenario_0) = 1" "data (handles scenario_0 ! 0) = None"
  by code_simp+

lemma world_ok_scenario_0: "world_ok scenario_0"
proof -
  have "handles scenario_0 = [\<lparr>data = None, unsharable = False\<rparr>]" by code_simp
  then show ?thesis by (simp add: world_ok_def)
qed

lemma unsharable_alone_scenario_4: "unsharable_alone scenario_4"
proof -
  have "handles scenario_4 = [\<lparr>data = Some 1, unsharable = True\<rparr>]" by code_simp
  then show ?thesis by (simp add: unsharable_alone_def use_count_def)
qed

text \<open>
  The claim C2 as it is written fails for a binder that is marked unsharable and is the
  only one holding its snapshot: \<^verbatim>\<open>insert_front\<close> changes that snapshot in place.
\<close>

theorem unsharable_edit_in_place_counterexample:
  "unsharable (handles scenario_4 ! 0) \<and> data (handles scenario_4 ! 0) = Some 1
   \<and> fst (insert_front no_fault 0 9 ''z'' scenario_4) = Inr ()
   \<and> data (handles (snd (insert_front no_fault 0 9 ''z'' scenario_4)) ! 0) = Some 1
   \<and> entries_of (heap scenario_4 1) = [(Some 2, ''b''), (Some 3, ''c''), (Some 1, ''a'')]
   \<and> entries_of (heap (snd (insert_front no_fault 0 9 ''z'' scenario_4)) 1)
       = [(Some 9, ''z''), (Some 2, ''b''), (Some 3, ''c''), (Some 1, ''a'')]"
  by code_simp

text \<open>
  C2, amended. Take a mutating call (\<^verbatim>\<open>insert_front\<close>, \<^verbatim>\<open>insert_after\<close>, either
  \<^verbatim>\<open>remove\<close>, the mutable \<^verbatim>\<open>read\<close>) on a binder that holds the snapshot \<open>p\<close>. When
  more than one binder holds \<open>p\<close>, \<^verbatim>\<open>going_to_edit\<close> returns a new snapshot at an
  address that no binder holds, with the entries of \<open>p\<close> in their order; the call
  changes the store at that address only, so \<open>p\<close> and every other snapshot stay as they
  were, and on success the binder holds the new snapshot, on failure every binder is as
  before. When the binder is the only one holding \<open>p\<close>, whether it is marked unsharable
  or not, \<^verbatim>\<open>going_to_edit\<close> returns \<open>p\<close> itself, the call changes the store at \<open>p\<close>
  only, and the binder keeps \<open>p\<close>.
\<close>

theorem clone_only_when_shared:
  assumes "h < length (handles w)" "data (handles w ! h) = Some p"
    and "perform fails h c w = (r, w')"
  shows "(use_count w p > 1 \<longrightarrow>
            new_addr w \<noteq> p \<and> use_count w (new_addr w) = 0
            \<and> (\<forall>a. a \<noteq> new_addr w \<longrightarrow> heap w' a = heap w a)
            \<and> (case r of Inr _ \<Rightarrow> data (handles w' ! h) = Some (new_addr w)
                        | Inl _ \<Rightarrow> handles w' = handles w)
            \<and> (\<forall>nd w1. going_to_edit fails h w = (Inr nd, w1) \<longrightarrow>
                  nd = Some (new_addr w)
                  \<and> entries_of (heap w1 (new_addr w)) = entries_of (heap w p)))
       \<and> (\<not> use_count w p > 1 \<longrightarrow>
            (\<forall>a. a \<noteq> p \<longrightarrow> heap w' a = heap w a)
            \<and> (case r of Inr _ \<Rightarrow> data (handles w' ! h) = Some p
                        | Inl _ \<Rightarrow> handles w' = handles w)
            \<and> going_to_edit fails h w = (Inr (Some p), w))"
proof -
  note main = perform_frame [OF assms]
  show ?thesis
  proof (cases "use_count w p > 1")
    case True
    have "\<forall>nd w1. going_to_edit fails h w = (Inr nd, w1) \<longrightarrow>
        nd = Some (new_addr w) \<and> entries_of (heap w1 (new_addr w)) = entries_of (heap w p)"
      using going_to_edit_clone [OF assms(2) True] by blast
    with True main edit_target_shared [OF assms(1,2)] show ?thesis by (cases r) simp_all
  next
    case False
    with main going_to_edit_unshared [OF assms(2) False, of fails] show ?thesis
      by (cases r) (simp_all add: edit_target_def)
  qed
qed

theorem clone_only_when_shared_witness:
  "use_count scenario_5c 1 = 2
   \<and> perform no_fault 0 (RemoveKey 1) scenario_5c = (Inr (), scenario_6c)
   \<and> data (handles scenario_6c ! 0) = Some 2
   \<and> heap scenario_6c 1 = heap scenario_5c 1
   \<and> unsharable (handles scenario_4 ! 0) \<and> use_count scenario_4 1 = 1
   \<and> fst (perform no_fault 0 (InsertFront 9 ''z'') scenario_4) = Inr ()
   \<and> data (handles (snd (perform no_fault 0 (InsertFront 9 ''z'') scenario_4)) ! 0) = Some 1"
proof -
  have h5: "0 < length (handles scenario_5c)" using scenario_5c_facts(1) by simp
  have p5: "perform no_fault 0 (RemoveKey 1) scenario_5c = (Inr (), scenario_6c)"
    using scenario_5c_facts(6) by (simp add: scenario_6c_def prod_eq_iff)
  have s5: "use_count scenario_5c 1 > 1" using scenario_5c_facts(4) by simp
  note t5 = clone_only_when_shared [OF h5 scenario_5c_facts(2) p5]
  from t5 s5 have a: "data (handles scenario_6c ! 0) = Some (new_addr scenario_5c)"
    by simp
  from t5 s5 have "new_addr scenario_5c \<noteq> 1"
    "\<forall>a. a \<noteq> new_addr scenario_5c \<longrightarrow> heap scenario_6c a = heap scenario_5c a"
    by blast+
  then have b: "heap scenario_6c 1 = heap scenario_5c 1" by (metis)
  have h4: "0 < length (handles scenario_4)" using scenario_4_facts(1) by simp
  have p4: "perform no_fault 0 (InsertFront 9 ''z'') scenario_4
      = (Inr (), snd (perform no_fault 0 (InsertFront 9 ''z'') scenario_4))"
    using scenario_4_facts(5) by (simp add: prod_eq_iff)
  have s4: "\<not> use_count scenario_4 1 > 1" using scenario_4_facts(4) by simp
  note t4 = clone_only_when_shared [OF h4 scenario_4_facts(2) p4]
  from t4 s4 have c: "data (handles (snd (perform no_fault 0 (InsertFront 9 ''z'') scenario_4)) ! 0) = Some 1"
    by simp
  from a b c p5 scenario_5c_facts(4,5) scenario_4_facts(3,4,5) show ?thesis
    by (simp only: simp_thms)
qed

subsection \<open>The binder marked unsharable holds its snapshot alone\<close>

lemma binder_move_handles:
  "binder_move src w =
     (length (handles w),
      w\<lparr>handles := (handles w)[src := (handles w ! src)\<lparr>data := None\<rparr>]
                      @ [\<lparr>data = data (handles w ! src), unsharable = unsharable (handles w ! src)\<rparr>]\<rparr>)"
  by (simp add: binder_move_def Let_def)

lemma move_assign_handles:
  "src < length (handles w) \<Longrightarrow> dst < length (handles w) \<Longrightarrow>
   move_assign dst src w =
     w\<lparr>handles := (handles w)[src := (handles w ! src)\<lparr>data := None\<rparr>,
                               dst := \<lparr>data = data (handles w ! src), unsharable = False\<rparr>]\<rparr>"
  by (simp add: move_assign_def binder_move_handles assign_body_def destroy_last_def Let_def
      list_update_append nth_append)

text \<open>
  The invariant by position: a binder whose flag is set shares its snapshot with no
  binder at another position. Every operation changes one binder to a snapshot that no
  other binder holds, or adds a binder that shares only with binders whose flag is clear.
\<close>

lemma unsharable_alone_iff: "unsharable_alone w \<longleftrightarrow> alone (handles w)"
proof
  assume ua: "unsharable_alone w"
  show "alone (handles w)"
    unfolding alone_def
  proof (intro allI impI)
    fix i j
    assume i: "i < length (handles w)" and j: "j < length (handles w)"
      and f: "unsharable (handles w ! i)" and d: "data (handles w ! i) \<noteq> None"
      and e: "data (handles w ! j) = data (handles w ! i)"
    from d obtain p where p: "data (handles w ! i) = Some p" by blast
    have "handles w ! i \<in> set (handles w)" using i by (rule nth_mem)
    with ua f p have one: "use_count w p = 1"
      unfolding unsharable_alone_def by blast
    from e p have "data (handles w ! j) = Some p" by simp
    with use_count_one_iff [OF i p] one j show "j = i" by blast
  qed
next
  assume al: "alone (handles w)"
  show "unsharable_alone w"
    unfolding unsharable_alone_def
  proof (intro ballI allI impI)
    fix b p
    assume b: "b \<in> set (handles w)" and fp: "unsharable b \<and> data b = Some p"
    from b obtain i where i: "i < length (handles w)" and bi: "handles w ! i = b"
      unfolding in_set_conv_nth by blast
    from fp bi have f: "unsharable (handles w ! i)" and p: "data (handles w ! i) = Some p"
      by simp_all
    have "j = i" if "j < length (handles w)" "data (handles w ! j) = Some p" for j
    proof -
      from al i that(1) f p that(2) show ?thesis
        unfolding alone_def by (metis option.distinct(1))
    qed
    then have "\<forall>j < length (handles w). data (handles w ! j) = Some p \<longrightarrow> j = i" by blast
    with use_count_one_iff [OF i p] show "use_count w p = 1" by blast
  qed
qed

lemma alone_update:
  assumes "alone hs" "h < length hs"
    and excl: "\<And>j. j < length hs \<Longrightarrow> j \<noteq> h \<Longrightarrow> data (hs ! j) = data b \<Longrightarrow> data b \<noteq> None
          \<Longrightarrow> \<not> unsharable b \<and> \<not> unsharable (hs ! j)"
  shows "alone (hs[h := b])"
  unfolding alone_def
proof (intro allI impI)
  fix i j
  assume i: "i < length (hs[h := b])" and j: "j < length (hs[h := b])"
    and f: "unsharable (hs[h := b] ! i)" and d: "data (hs[h := b] ! i) \<noteq> None"
    and e: "data (hs[h := b] ! j) = data (hs[h := b] ! i)"
  from i j have il: "i < length hs" and jl: "j < length hs" by simp_all
  show "j = i"
  proof (cases "i = h")
    case True
    with f d assms(2) have fb: "unsharable b" and db: "data b \<noteq> None" by simp_all
    show ?thesis
    proof (rule ccontr)
      assume ne: "j \<noteq> i"
      with True e assms(2) have "data (hs ! j) = data b" by simp
      from excl [OF jl _ this db] ne True fb show False by simp
    qed
  next
    case ih: False
    with f d have fi: "unsharable (hs ! i)" and di: "data (hs ! i) \<noteq> None" by simp_all
    show ?thesis
    proof (cases "j = h")
      case True
      with ih e assms(2) have "data (hs ! i) = data b" by simp
      from excl [OF il ih this] di this fi show ?thesis by simp
    next
      case False
      with ih e have "data (hs ! j) = data (hs ! i)" by simp
      with assms(1) il jl fi di show ?thesis unfolding alone_def by blast
    qed
  qed
qed

lemma alone_append:
  assumes "alone hs"
    and excl: "\<And>j. j < length hs \<Longrightarrow> data (hs ! j) = data b \<Longrightarrow> data b \<noteq> None
          \<Longrightarrow> \<not> unsharable b \<and> \<not> unsharable (hs ! j)"
  shows "alone (hs @ [b])"
  unfolding alone_def
proof (intro allI impI)
  fix i j
  assume i: "i < length (hs @ [b])" and j: "j < length (hs @ [b])"
    and f: "unsharable ((hs @ [b]) ! i)" and d: "data ((hs @ [b]) ! i) \<noteq> None"
    and e: "data ((hs @ [b]) ! j) = data ((hs @ [b]) ! i)"
  show "j = i"
  proof (cases "i < length hs")
    case il: True
    with f d have fi: "unsharable (hs ! i)" and di: "data (hs ! i) \<noteq> None"
      by (simp_all add: nth_append)
    show ?thesis
    proof (cases "j < length hs")
      case True
      with il e have "data (hs ! j) = data (hs ! i)" by (simp add: nth_append)
      with assms(1) il True fi di show ?thesis unfolding alone_def by blast
    next
      case False
      with j have "j = length hs" by simp
      with il e have "data (hs ! i) = data b" by (simp add: nth_append)
      from excl [OF il this] di this fi show ?thesis by simp
    qed
  next
    case False
    with i have il: "i = length hs" by simp
    with f d have fb: "unsharable b" and db: "data b \<noteq> None" by simp_all
    show ?thesis
    proof (rule ccontr)
      assume "j \<noteq> i"
      with il j have jl: "j < length hs" by simp
      with il e have "data (hs ! j) = data b" by (simp add: nth_append)
      from excl [OF jl this db] fb show False by simp
    qed
  qed
qed

lemma edit_target_exclusive:
  assumes "h < length (handles w)" "data (handles w ! h) = Some p"
    and "j < length (handles w)" "j \<noteq> h"
  shows "data (handles w ! j) \<noteq> Some (edit_target w p)"
proof (cases "use_count w p > 1")
  case True
  with new_addr_fresh_nth [OF assms(3)] show ?thesis by (simp add: edit_target_def)
next
  case False
  with use_count_two [OF assms(1,3) _ assms(2)] assms(4) show ?thesis
    by (auto simp: edit_target_def)
qed

lemma insert_front_empty:
  assumes "h < length (handles w)" "data (handles w ! h) = None" "\<not> fails AllocData"
  shows "insert_front fails h k v w =
     insert_front fails h k v
       (w\<lparr>heap := (heap w)(new_addr w := empty_data),
          handles := (handles w)[h := (handles w ! h)\<lparr>data := Some (new_addr w)\<rparr>]\<rparr>)"
  using assms
  by (simp add: insert_front_def make_shared_empty_def empty_data_def)

lemma insert_front_empty_alloc_fails:
  assumes "data (handles w ! h) = None" "fails AllocData"
  shows "insert_front fails h k v w = (Inl BadAlloc, w)"
  using assms by (simp add: insert_front_def make_shared_empty_def)

lemma exclusive_target:
  assumes "h < length (handles w)" "data (handles w ! h) = Some p"
  shows "exclusive (handles w) h \<lparr>data = Some (edit_target w p), unsharable = f\<rparr>"
  unfolding exclusive_def using edit_target_exclusive [OF assms] by simp

lemma insert_front_handles:
  assumes h: "h < length (handles w)" and res: "insert_front fails h k v w = (r, w')"
  shows "handles w' = handles w
    \<or> (\<exists>b. handles w' = (handles w)[h := b] \<and> exclusive (handles w) h b)"
proof (cases "data (handles w ! h)")
  case (Some p)
  from frame_insert_front [OF h Some res] exclusive_target [OF h Some, of False]
  show ?thesis by (cases r) auto
next
  case None
  show ?thesis
  proof (cases "fails AllocData")
    case True
    with insert_front_empty_alloc_fails [of w h fails k v] None res show ?thesis by simp
  next
    case False
    define b0 where "b0 = (handles w ! h)\<lparr>data := Some (new_addr w)\<rparr>"
    define w0 where "w0 = w\<lparr>heap := (heap w)(new_addr w := empty_data),
          handles := (handles w)[h := b0]\<rparr>"
    have res0: "insert_front fails h k v w0 = (r, w')"
      using insert_front_empty [of h w fails k v] h None False res by (simp add: w0_def b0_def)
    have h0: "h < length (handles w0)" and d0: "data (handles w0 ! h) = Some (new_addr w)"
      using h by (simp_all add: w0_def b0_def)
    have ex0: "exclusive (handles w) h b" if "data b = Some (new_addr w)" for b
      unfolding exclusive_def using that new_addr_fresh_nth [of _ w] by simp
    have one: "\<not> use_count w0 (new_addr w) > 1"
    proof
      assume "use_count w0 (new_addr w) > 1"
      then have "card {i. i < length (handles w0) \<and> data (handles w0 ! i) = Some (new_addr w)} > 1"
        by (simp add: use_count_card)
      moreover have "{i. i < length (handles w0) \<and> data (handles w0 ! i) = Some (new_addr w)} \<subseteq> {h}"
      proof
        fix x assume "x \<in> {i. i < length (handles w0) \<and> data (handles w0 ! i) = Some (new_addr w)}"
        then have x: "x < length (handles w)" "data ((handles w)[h := b0] ! x) = Some (new_addr w)"
          by (simp_all add: w0_def)
        have "x = h"
        proof (rule ccontr)
          assume "x \<noteq> h"
          with x have "data (handles w ! x) = Some (new_addr w)" by simp
          with new_addr_fresh_nth [OF x(1)] show False by simp
        qed
        then show "x \<in> {h}" by simp
      qed
      ultimately show False
        by (metis card_mono card.empty card_insert_if empty_iff finite.emptyI finite.insertI
            not_less One_nat_def)
    qed
    then have tgt: "edit_target w0 (new_addr w) = new_addr w" by (simp add: edit_target_def)
    from frame_insert_front [OF h0 d0 res0] tgt
    have "handles w' = handles w0
        \<or> handles w' = (handles w0)[h := \<lparr>data = Some (new_addr w), unsharable = False\<rparr>]"
      by (cases r) auto
    then have "handles w' = (handles w)[h := b0]
        \<or> handles w' = (handles w)[h := \<lparr>data = Some (new_addr w), unsharable = False\<rparr>]"
      by (simp add: w0_def)
    moreover have "exclusive (handles w) h b0" by (rule ex0) (simp add: b0_def)
    moreover have "exclusive (handles w) h \<lparr>data = Some (new_addr w), unsharable = False\<rparr>"
      by (rule ex0) simp
    ultimately show ?thesis by blast
  qed
qed

lemma perform_handles:
  assumes h: "h < length (handles w)" and res: "perform fails h c w = (r, w')"
  shows "handles w' = handles w
    \<or> (\<exists>b. handles w' = (handles w)[h := b] \<and> exclusive (handles w) h b)"
proof (cases c)
  case (InsertFront k v)
  with insert_front_handles [OF h, of fails k v r w'] res show ?thesis by simp
next
  case (InsertAfter pk k v)
  show ?thesis
  proof (cases "data (handles w ! h)")
    case None
    with InsertAfter res show ?thesis by (simp add: insert_after_def)
  next
    case (Some p)
    from InsertAfter res have "insert_after fails h pk k v w = (r, w')" by simp
    from frame_insert_after [OF h Some this] exclusive_target [OF h Some, of False]
    show ?thesis by (cases r) auto
  qed
next
  case RemoveFirst
  show ?thesis
  proof (cases "data (handles w ! h)")
    case None
    with RemoveFirst res show ?thesis by (simp add: remove_first_def size_binder_def)
  next
    case (Some p)
    from RemoveFirst res have "remove_first fails h w = (r, w')" by simp
    from frame_remove_first [OF h Some this] exclusive_target [OF h Some, of False]
    show ?thesis by (cases r) auto
  qed
next
  case (RemoveKey k)
  show ?thesis
  proof (cases "data (handles w ! h)")
    case None
    with RemoveKey res show ?thesis by (simp add: remove_key_def)
  next
    case (Some p)
    from RemoveKey res have "remove_key fails h k w = (r, w')" by simp
    from frame_remove_key [OF h Some this] exclusive_target [OF h Some, of False]
    show ?thesis by (cases r) auto
  qed
next
  case (ReadMutable k)
  show ?thesis
  proof (cases "data (handles w ! h)")
    case None
    with ReadMutable res show ?thesis by (simp add: read_def)
  next
    case (Some p)
    obtain r0 where rd: "read fails h k w = (r0, w')"
      using res ReadMutable by (cases "read fails h k w") (auto split: sum.splits)
    from frame_read [OF h Some rd] exclusive_target [OF h Some, of True]
    show ?thesis by (cases r0) auto
  qed
qed

lemma alone_exclusive_update:
  assumes "alone hs" "h < length hs" "exclusive hs h b"
  shows "alone (hs[h := b])"
  using assms(1,2)
proof (rule alone_update)
  fix j assume "j < length hs" "j \<noteq> h" "data (hs ! j) = data b"
  with assms(3) show "\<not> unsharable b \<and> \<not> unsharable (hs ! j)"
    unfolding exclusive_def by blast
qed

lemma alone_shared_unflagged:
  assumes "alone hs" "src < length hs" "j < length hs" "j \<noteq> src"
    and "data (hs ! j) = data (hs ! src)" "data (hs ! src) \<noteq> None"
  shows "\<not> unsharable (hs ! j) \<and> \<not> unsharable (hs ! src)"
proof -
  have "\<not> unsharable (hs ! j)"
  proof
    assume "unsharable (hs ! j)"
    with assms(1,2,3,5,6) have "src = j" unfolding alone_def by metis
    with assms(4) show False by simp
  qed
  moreover have "\<not> unsharable (hs ! src)"
  proof
    assume "unsharable (hs ! src)"
    with assms(1,2,3,5,6) have "j = src" unfolding alone_def by metis
    with assms(4) show False by simp
  qed
  ultimately show ?thesis by simp
qed

lemma binder_copy_cases:
  assumes "binder_copy fails src w = (r, w')"
  shows "(\<exists>e. r = Inl e \<and> w' = w)
    \<or> (r = Inr (length (handles w))
        \<and> handles w' = handles w @ [\<lparr>data = data (handles w ! src), unsharable = False\<rparr>]
        \<and> (unsharable (handles w ! src) \<longrightarrow> data (handles w ! src) = None))
    \<or> (r = Inr (length (handles w))
        \<and> handles w' = handles w @ [\<lparr>data = Some (new_addr w), unsharable = False\<rparr>])"
proof (cases "unsharable (handles w ! src)")
  case False
  with assms show ?thesis by (auto simp: binder_copy_def)
next
  case True
  show ?thesis
  proof (cases "data (handles w ! src)")
    case None
    with True assms show ?thesis by (auto simp: binder_copy_def)
  next
    case (Some p)
    have unfold: "binder_copy fails src w =
        (case make_shared_copy fails (heap w p) w of
           (Inl e, w') \<Rightarrow> (Inl e, w')
         | (Inr q, w') \<Rightarrow>
             (Inr (length (handles w')),
              w'\<lparr>handles := handles w' @ [\<lparr>data = Some q, unsharable = False\<rparr>]\<rparr>))"
      using True Some by (simp add: binder_copy_def)
    obtain r0 w0 where ms: "make_shared_copy fails (heap w p) w = (r0, w0)"
      by (cases "make_shared_copy fails (heap w p) w")
    show ?thesis
    proof (cases r0)
      case (Inl e)
      with ms have "w0 = w" by (simp add: make_shared_copy_Inl)
      moreover from unfold ms Inl assms have "r = Inl e" "w' = w0" by simp_all
      ultimately show ?thesis by simp
    next
      case (Inr q)
      with ms make_shared_copy_Inr [of fails "heap w p" w q w0]
      have "q = new_addr w" "handles w0 = handles w" by auto
      moreover from unfold ms Inr assms
      have "r = Inr (length (handles w0))"
        "w' = w0\<lparr>handles := handles w0 @ [\<lparr>data = Some q, unsharable = False\<rparr>]\<rparr>"
        by simp_all
      ultimately show ?thesis by simp
    qed
  qed
qed

lemma alone_copy_entry:
  assumes "alone hs" "src < length hs"
    and "unsharable (hs ! src) \<longrightarrow> data (hs ! src) = None"
    and "j < length hs" "data (hs ! j) = data (hs ! src)" "data (hs ! src) \<noteq> None"
  shows "\<not> unsharable (hs ! j)"
proof (cases "j = src")
  case True
  with assms(3,6) show ?thesis by simp
next
  case False
  from alone_shared_unflagged [OF assms(1,2,4) False assms(5,6)] show ?thesis by simp
qed

lemma alone_binder_copy:
  assumes "alone (handles w)" "src < length (handles w)" "binder_copy fails src w = (r, w')"
  shows "alone (handles w')"
proof -
  from binder_copy_cases [OF assms(3)]
  consider (failed) "w' = w"
    | (shared) "handles w' = handles w @ [\<lparr>data = data (handles w ! src), unsharable = False\<rparr>]"
        "unsharable (handles w ! src) \<longrightarrow> data (handles w ! src) = None"
    | (cloned) "handles w' = handles w @ [\<lparr>data = Some (new_addr w), unsharable = False\<rparr>]"
    by blast
  then show ?thesis
  proof cases
    case failed
    with assms(1) show ?thesis by simp
  next
    case shared
    have "alone (handles w @ [\<lparr>data = data (handles w ! src), unsharable = False\<rparr>])"
      using assms(1)
    proof (rule alone_append)
      fix j
      assume "j < length (handles w)"
        "data (handles w ! j) = data \<lparr>data = data (handles w ! src), unsharable = False\<rparr>"
        "data \<lparr>data = data (handles w ! src), unsharable = False\<rparr> \<noteq> None"
      with alone_copy_entry [OF assms(1,2) shared(2), of j]
      show "\<not> unsharable \<lparr>data = data (handles w ! src), unsharable = False\<rparr>
          \<and> \<not> unsharable (handles w ! j)" by simp
    qed
    with shared(1) show ?thesis by simp
  next
    case cloned
    have "alone (handles w @ [\<lparr>data = Some (new_addr w), unsharable = False\<rparr>])"
      using assms(1)
    proof (rule alone_append)
      fix j
      assume "j < length (handles w)"
        "data (handles w ! j) = data \<lparr>data = Some (new_addr w), unsharable = False\<rparr>"
      with new_addr_fresh_nth [of j w]
      show "\<not> unsharable \<lparr>data = Some (new_addr w), unsharable = False\<rparr>
          \<and> \<not> unsharable (handles w ! j)" by simp
    qed
    with cloned show ?thesis by simp
  qed
qed

lemma assign_after_construct:
  assumes "h < length hs" "handles w1 = hs @ [nb]"
  shows "handles (destroy_last (assign_body h (length hs) w1))
    = hs[h := \<lparr>data = data nb, unsharable = False\<rparr>]"
  using assms
  by (simp add: destroy_last_def assign_body_def Let_def list_update_append nth_append)

lemma alone_copy_assign:
  assumes "alone (handles w)" "h < length (handles w)" "src < length (handles w)"
    and "copy_assign fails h src w = (r, w')"
  shows "alone (handles w')"
proof -
  obtain r0 w0 where bc: "binder_copy fails src w = (r0, w0)"
    by (cases "binder_copy fails src w")
  from binder_copy_cases [OF bc]
  consider (failed) e where "r0 = Inl e" "w0 = w"
    | (shared) "r0 = Inr (length (handles w))"
        "handles w0 = handles w @ [\<lparr>data = data (handles w ! src), unsharable = False\<rparr>]"
        "unsharable (handles w ! src) \<longrightarrow> data (handles w ! src) = None"
    | (cloned) "r0 = Inr (length (handles w))"
        "handles w0 = handles w @ [\<lparr>data = Some (new_addr w), unsharable = False\<rparr>]"
    by blast
  then show ?thesis
  proof cases
    case failed
    with bc assms(1,4) show ?thesis by (simp add: copy_assign_def)
  next
    case shared
    from bc shared(1) assms(4)
    have "w' = destroy_last (assign_body h (length (handles w)) w0)"
      by (simp add: copy_assign_def)
    with assign_after_construct [OF assms(2) shared(2)]
    have hw: "handles w' = (handles w)[h := \<lparr>data = data (handles w ! src), unsharable = False\<rparr>]"
      by simp
    have "alone ((handles w)[h := \<lparr>data = data (handles w ! src), unsharable = False\<rparr>])"
      using assms(1,2)
    proof (rule alone_update)
      fix j
      assume "j < length (handles w)"
        "data (handles w ! j) = data \<lparr>data = data (handles w ! src), unsharable = False\<rparr>"
        "data \<lparr>data = data (handles w ! src), unsharable = False\<rparr> \<noteq> None"
      with alone_copy_entry [OF assms(1,3) shared(3), of j]
      show "\<not> unsharable \<lparr>data = data (handles w ! src), unsharable = False\<rparr>
          \<and> \<not> unsharable (handles w ! j)" by simp
    qed
    with hw show ?thesis by simp
  next
    case cloned
    from bc cloned(1) assms(4)
    have "w' = destroy_last (assign_body h (length (handles w)) w0)"
      by (simp add: copy_assign_def)
    with assign_after_construct [OF assms(2) cloned(2)]
    have hw: "handles w' = (handles w)[h := \<lparr>data = Some (new_addr w), unsharable = False\<rparr>]"
      by simp
    have "exclusive (handles w) h \<lparr>data = Some (new_addr w), unsharable = False\<rparr>"
      unfolding exclusive_def using new_addr_fresh_nth [of _ w] by simp
    from alone_exclusive_update [OF assms(1,2) this] hw show ?thesis by simp
  qed
qed

lemma alone_moved_from:
  assumes "alone hs" "src < length hs"
  shows "alone (hs[src := (hs ! src)\<lparr>data := None\<rparr>])"
  using assms
proof (rule alone_update)
  fix j assume "data ((hs ! src)\<lparr>data := None\<rparr>) \<noteq> None"
  then show "\<not> unsharable ((hs ! src)\<lparr>data := None\<rparr>) \<and> \<not> unsharable (hs ! j)" by simp
qed

lemma moved_from_entry:
  assumes "alone hs" "src < length hs" "j < length hs"
    and "data (hs[src := (hs ! src)\<lparr>data := None\<rparr>] ! j) = data (hs ! src)"
    and "data (hs ! src) \<noteq> None"
  shows "\<not> unsharable (hs ! src) \<and> \<not> unsharable (hs[src := (hs ! src)\<lparr>data := None\<rparr>] ! j)"
proof (cases "j = src")
  case True
  with assms(2,4,5) show ?thesis by simp
next
  case False
  with assms(4) have "data (hs ! j) = data (hs ! src)" by simp
  from alone_shared_unflagged [OF assms(1,2,3) False this assms(5)] False
  show ?thesis by simp
qed

lemma alone_binder_move:
  assumes "alone (handles w)" "src < length (handles w)"
  shows "alone (handles (snd (binder_move src w)))"
proof -
  let ?hs = "handles w" and ?nb = "\<lparr>data = data (handles w ! src), unsharable = unsharable (handles w ! src)\<rparr>"
  have "alone (?hs[src := (?hs ! src)\<lparr>data := None\<rparr>] @ [?nb])"
    using alone_moved_from [OF assms]
  proof (rule alone_append)
    fix j
    assume "j < length (?hs[src := (?hs ! src)\<lparr>data := None\<rparr>])"
      "data (?hs[src := (?hs ! src)\<lparr>data := None\<rparr>] ! j) = data ?nb" "data ?nb \<noteq> None"
    with moved_from_entry [OF assms, of j]
    show "\<not> unsharable ?nb \<and> \<not> unsharable (?hs[src := (?hs ! src)\<lparr>data := None\<rparr>] ! j)"
      by simp
  qed
  then show ?thesis by (simp add: binder_move_handles)
qed

lemma alone_move_assign:
  assumes "alone (handles w)" "h < length (handles w)" "src < length (handles w)"
  shows "alone (handles (move_assign h src w))"
proof -
  let ?hs = "handles w" and ?nb = "\<lparr>data = data (handles w ! src), unsharable = False\<rparr>"
  have "alone (?hs[src := (?hs ! src)\<lparr>data := None\<rparr>, h := ?nb])"
  proof (rule alone_update)
    show "alone (?hs[src := (?hs ! src)\<lparr>data := None\<rparr>])" by (rule alone_moved_from [OF assms(1,3)])
    show "h < length (?hs[src := (?hs ! src)\<lparr>data := None\<rparr>])" using assms(2) by simp
    fix j
    assume "j < length (?hs[src := (?hs ! src)\<lparr>data := None\<rparr>])"
      "data (?hs[src := (?hs ! src)\<lparr>data := None\<rparr>] ! j) = data ?nb" "data ?nb \<noteq> None"
    with moved_from_entry [OF assms(1,3), of j]
    show "\<not> unsharable ?nb \<and> \<not> unsharable (?hs[src := (?hs ! src)\<lparr>data := None\<rparr>] ! j)"
      by simp
  qed
  then show ?thesis by (simp add: move_assign_handles [OF assms(3,2)])
qed

lemma alone_clear:
  assumes "alone (handles w)" "h < length (handles w)"
  shows "alone (handles (clear h w))"
proof -
  have "alone ((handles w)[h := \<lparr>data = None, unsharable = False\<rparr>])"
    using assms
  proof (rule alone_update)
    fix j assume "data \<lparr>data = None, unsharable = False\<rparr> \<noteq> None"
    then show "\<not> unsharable \<lparr>data = None, unsharable = False\<rparr> \<and> \<not> unsharable (handles w ! j)"
      by simp
  qed
  then show ?thesis by (simp add: clear_def)
qed

lemma alone_default:
  assumes "alone (handles w)"
  shows "alone (handles (snd (binder_default w)))"
proof -
  have "alone (handles w @ [\<lparr>data = None, unsharable = False\<rparr>])"
    using assms
  proof (rule alone_append)
    fix j assume "data \<lparr>data = None, unsharable = False\<rparr> \<noteq> None"
    then show "\<not> unsharable \<lparr>data = None, unsharable = False\<rparr> \<and> \<not> unsharable (handles w ! j)"
      by simp
  qed
  then show ?thesis by (simp add: binder_default_def)
qed

lemma alone_perform:
  assumes "alone (handles w)" "h < length (handles w)" "perform fails h c w = (r, w')"
  shows "alone (handles w')"
  using perform_handles [OF assms(2,3)] alone_exclusive_update [OF assms(1,2)] assms(1)
  by auto

text \<open>
  C8. Every operation of the class (default, copy and move construction, copy and move
  assignment, \<^verbatim>\<open>insert_front\<close>, \<^verbatim>\<open>insert_after\<close>, both \<^verbatim>\<open>remove\<close>, both
  \<^verbatim>\<open>read\<close>, \<^verbatim>\<open>size\<close>, \<^verbatim>\<open>clear\<close>), whether it returns or throws, keeps the
  invariant: a binder whose flag is set and that holds a snapshot is the only binder
  holding that snapshot (its use count is 1).
\<close>

theorem operations_keep_unsharable_alone:
  assumes "unsharable_alone w" "names_binders w op"
  shows "unsharable_alone (apply_operation fails op w)"
proof -
  from assms(1) have al: "alone (handles w)" by (simp add: unsharable_alone_iff)
  have "alone (handles (apply_operation fails op w))"
  proof (cases op)
    case DefaultConstruct
    with alone_default [OF al] show ?thesis by simp
  next
    case (CopyConstruct src)
    with assms(2) alone_binder_copy [OF al, of src fails] show ?thesis
      by (cases "binder_copy fails src w") simp
  next
    case (MoveConstruct src)
    with assms(2) alone_binder_move [OF al, of src] show ?thesis by simp
  next
    case (CopyAssign h src)
    with assms(2) alone_copy_assign [OF al, of h src fails] show ?thesis
      by (cases "copy_assign fails h src w") simp
  next
    case (MoveAssign h src)
    with assms(2) alone_move_assign [OF al, of h src] show ?thesis by simp
  next
    case (Mutate h c)
    with assms(2) alone_perform [OF al, of h fails c] show ?thesis
      by (cases "perform fails h c w") simp
  next
    case (ReadConst h k)
    with al show ?thesis by simp
  next
    case (Size h)
    with al show ?thesis by simp
  next
    case (Clear h)
    with assms(2) alone_clear [OF al, of h] show ?thesis by simp
  qed
  then show ?thesis by (simp add: unsharable_alone_iff)
qed

theorem operations_keep_unsharable_alone_witness:
  "unsharable_alone scenario_4 \<and> names_binders scenario_4 (CopyConstruct 0)
   \<and> unsharable_alone (apply_operation no_fault (CopyConstruct 0) scenario_4)
   \<and> apply_operation no_fault (CopyConstruct 0) scenario_4 = scenario_5"
proof -
  have n: "names_binders scenario_4 (CopyConstruct 0 :: (nat, string) operation)"
    using scenario_4_facts(1) by simp
  from operations_keep_unsharable_alone [OF unsharable_alone_scenario_4 n, of no_fault]
    unsharable_alone_scenario_4 n show ?thesis
    by (simp add: scenario_5_def)
qed

subsection \<open>The structural invariant and the order of the entries\<close>

text \<open>
  The structural invariant says that the index is a function of the list: the keys and
  the nodes of the list are distinct, no key pointer is null, and the index maps each
  key to the node of the entry that points to it.
\<close>

lemma key_node_Nil [simp]: "key_node k [] = None"
  by (simp add: key_node_def)

lemma key_node_Cons [simp]:
  "key_node k (n # ns) = (if first n = Some k then Some (node_id n) else key_node k ns)"
  by (simp add: key_node_def)

lemma key_node_None_iff: "key_node k ns = None \<longleftrightarrow> (\<forall>n \<in> set ns. first n \<noteq> Some k)"
  by (induction ns) auto

lemma key_node_Some:
  "key_node k ns = Some nd \<Longrightarrow> \<exists>n \<in> set ns. node_id n = nd \<and> first n = Some k"
  by (induction ns) (auto split: if_splits)

lemma key_node_unique:
  assumes "distinct (map first ns)" "n \<in> set ns" "first n = Some k"
  shows "key_node k ns = Some (node_id n)"
  using assms
proof (induction ns)
  case Nil
  then show ?case by simp
next
  case (Cons m ns)
  show ?case
  proof (cases "first m = Some k")
    case True
    with Cons.prems have "m = n" by (auto simp: image_iff)
    with True show ?thesis by simp
  next
    case False
    with Cons show ?thesis by auto
  qed
qed

lemma data_ok_iff:
  "data_ok d \<longleftrightarrow>
     distinct (map node_id (notes d)) \<and> distinct (map first (notes d))
     \<and> (\<forall>n \<in> set (notes d). first n \<noteq> None)
     \<and> (\<forall>k. index d k = key_node k (notes d))"
  (is "?L \<longleftrightarrow> ?R")
proof
  assume L: ?L
  then have ids: "distinct (map node_id (notes d))"
    and ent: "\<And>n. n \<in> set (notes d) \<Longrightarrow> \<exists>k. first n = Some k \<and> index d k = Some (node_id n)"
    and idx: "\<And>k nd. index d k = Some nd \<Longrightarrow> \<exists>n \<in> set (notes d). node_id n = nd \<and> first n = Some k"
    unfolding data_ok_def by blast+
  have inj: "m = n" if "m \<in> set (notes d)" "n \<in> set (notes d)" "first m = first n" for m n
  proof -
    from ent [OF that(1)] ent [OF that(2)] that(3) have "node_id m = node_id n" by auto
    with ids that(1,2) show ?thesis by (meson distinct_map inj_onD)
  qed
  have keys: "distinct (map first (notes d))"
    using ids inj by (auto simp: distinct_map inj_on_def)
  have nonnull: "\<forall>n \<in> set (notes d). first n \<noteq> None"
    using ent by auto
  have "index d k = key_node k (notes d)" for k
  proof (cases "key_node k (notes d)")
    case None
    then have "\<forall>n \<in> set (notes d). first n \<noteq> Some k" by (simp add: key_node_None_iff)
    with idx [of k] have "index d k = None" by (cases "index d k") auto
    with None show ?thesis by simp
  next
    case (Some nd)
    from key_node_Some [OF Some] obtain n where n: "n \<in> set (notes d)" "node_id n = nd" "first n = Some k"
      by blast
    from ent [OF n(1)] n(2,3) have "index d k = Some nd" by auto
    with Some show ?thesis by simp
  qed
  with ids keys nonnull show ?R by blast
next
  assume R: ?R
  then have ids: "distinct (map node_id (notes d))" and keys: "distinct (map first (notes d))"
    and nonnull: "\<And>n. n \<in> set (notes d) \<Longrightarrow> first n \<noteq> None"
    and idx: "\<And>k. index d k = key_node k (notes d)"
    by blast+
  show ?L
    unfolding data_ok_def
  proof (intro conjI ballI allI impI)
    show "distinct (map node_id (notes d))" by (rule ids)
  next
    fix n assume n: "n \<in> set (notes d)"
    from nonnull [OF n] obtain k where k: "first n = Some k" by auto
    from key_node_unique [OF keys n k] idx [of k] k
    show "\<exists>k. first n = Some k \<and> index d k = Some (node_id n)" by simp
  next
    fix k nd assume "index d k = Some nd"
    with idx [of k] have "key_node k (notes d) = Some nd" by simp
    from key_node_Some [OF this]
    show "\<exists>n \<in> set (notes d). node_id n = nd \<and> first n = Some k" .
  qed
qed

lemma data_ok_empty: "data_ok empty_data"
  by (simp add: data_ok_def empty_data_def)

lemma emplace_lookup:
  "emplace k nd idx k' = (case idx k' of Some x \<Rightarrow> Some x | None \<Rightarrow> if k' = k then Some nd else None)"
  by (auto simp: emplace_def split: option.splits)

lemma rebuild_index_lookup:
  "rebuild_index fails i ns idx = Inr (ns', idx') \<Longrightarrow>
   idx' k = (case idx k of Some x \<Rightarrow> Some x | None \<Rightarrow> key_node k ns)"
proof (induction ns arbitrary: i idx ns' idx')
  case Nil
  then show ?case by (auto split: option.splits)
next
  case (Cons n ns)
  from Cons.prems obtain kn ns1 where
    kn: "first n = Some kn"
    and rec: "rebuild_index fails (i + 1) ns (emplace kn (node_id n) idx) = Inr (ns1, idx')"
    by (auto split: if_splits option.splits sum.splits)
  from Cons.IH [OF rec] kn show ?case
    by (simp add: emplace_lookup split: option.splits)
qed

lemma copy_data_t_ok:
  assumes "data_ok d" "copy_data_t fails d = Inr c"
  shows "c = d"
proof -
  from assms(2) obtain ns idx where
    rb: "rebuild_index fails 0 (notes d) Map.empty = Inr (ns, idx)" and c: "c = \<lparr>notes = ns, index = idx\<rparr>"
    by (auto simp: copy_data_t_def split: if_splits sum.splits)
  from rebuild_index_notes [OF rb] have ns: "ns = notes d" .
  have "idx k = index d k" for k
    using rebuild_index_lookup [OF rb, of k] assms(1) by (simp add: data_ok_iff)
  then have "idx = index d" by (simp add: fun_eq_iff)
  with ns c show ?thesis by simp
qed

lemma going_to_edit_ok:
  assumes "world_ok w" "h < length (handles w)" "data (handles w ! h) = Some p"
    and "going_to_edit fails h w = (Inr nd, w1)"
  shows "nd = Some (edit_target w p) \<and> handles w1 = handles w
    \<and> heap w1 (edit_target w p) = heap w p
    \<and> (\<forall>a. a \<noteq> edit_target w p \<longrightarrow> heap w1 a = heap w a)"
proof -
  from assms(1,2,3) have ok: "data_ok (heap w p)"
    unfolding world_ok_def using nth_mem [OF assms(2)] by blast
  show ?thesis
  proof (cases "use_count w p > 1")
    case False
    with assms(3,4) show ?thesis by (simp add: going_to_edit_unshared edit_target_def)
  next
    case True
    with assms(3,4) obtain c where
      c: "copy_data_t fails (heap w p) = Inr c"
      and r: "nd = Some (new_addr w)" "w1 = w\<lparr>heap := (heap w)(new_addr w := c)\<rparr>"
      by (auto simp: going_to_edit_shared split: if_splits sum.splits)
    from copy_data_t_ok [OF ok c] r True show ?thesis by (simp add: edit_target_def)
  qed
qed

lemma max_node_ge: "n \<in> set ns \<Longrightarrow> node_id n \<le> max_node ns"
  by (induction ns) auto

lemma new_node_fresh: "n \<in> set ns \<Longrightarrow> node_id n \<noteq> new_node ns"
  using max_node_ge [of n ns] by (simp add: new_node_def)

lemma set_first_absent: "\<forall>n \<in> set ns. node_id n \<noteq> nd \<Longrightarrow> set_first nd k ns = ns"
  by (simp add: set_first_def map_idI)

lemma set_first_insert_next:
  "\<forall>n \<in> set ns. node_id n \<noteq> node_id x \<Longrightarrow>
   set_first (node_id x) k (insert_next pit x ns) = insert_next pit (x\<lparr>first := Some k\<rparr>) ns"
proof (induction ns)
  case Nil
  then show ?case by (simp add: set_first_def)
next
  case (Cons n ns)
  then have "set_first (node_id x) k ns = ns" by (simp add: set_first_absent)
  with Cons show ?case by (simp add: set_first_def)
qed

lemma set_insert_next: "set (insert_next pit x ns) \<subseteq> insert x (set ns)"
  by (induction ns) auto

lemma distinct_insert_next:
  assumes "inj_on f (insert x (set ns))" "distinct (map f ns)" "x \<notin> set ns"
  shows "distinct (map f (insert_next pit x ns))"
  using assms
proof (induction ns)
  case Nil
  then show ?case by simp
next
  case (Cons n ns)
  have sub: "set (insert_next pit x ns) \<subseteq> insert x (set ns)" by (rule set_insert_next)
  from Cons.prems have inj: "inj_on f (insert x (set ns))"
    by (auto simp: inj_on_def)
  from Cons.prems have fx: "f x \<noteq> f n" "f n \<notin> f ` set ns" "f x \<notin> f ` set ns"
    by (auto simp: inj_on_def)
  show ?case
  proof (cases "node_id n = pit")
    case True
    with Cons.prems fx show ?thesis by simp
  next
    case False
    have "f n \<notin> f ` set (insert_next pit x ns)"
      using sub fx by auto
    with False Cons.IH [OF inj] Cons.prems show ?thesis by simp
  qed
qed

lemma key_node_insert_next:
  assumes "first x = Some k" "\<forall>n \<in> set ns. first n \<noteq> Some k" "pit \<in> node_id ` set ns"
  shows "key_node k' (insert_next pit x ns) = (if k' = k then Some (node_id x) else key_node k' ns)"
  using assms(2,3)
proof (induction ns)
  case Nil
  then show ?case by simp
next
  case (Cons n ns)
  show ?case
  proof (cases "node_id n = pit")
    case True
    with Cons.prems(1) assms(1) show ?thesis by auto
  next
    case False
    with Cons.prems have "pit \<in> node_id ` set ns" by auto
    with Cons.IH Cons.prems(1) False assms(1) show ?thesis by auto
  qed
qed

lemma entries_insert_next:
  assumes "\<forall>n \<in> set ns. (node_id n = pit) = (first n = Some pk)"
  shows "map (\<lambda>n. (first n, second n)) (insert_next pit x ns)
    = place_after (Some pk) (first x, second x) (map (\<lambda>n. (first n, second n)) ns)"
  using assms by (induction ns) auto

lemma erase_node_filter:
  assumes "\<forall>n \<in> set ns. (node_id n = nd) = (first n = Some k)" "distinct (map first ns)"
  shows "erase_node nd ns = filter (\<lambda>n. first n \<noteq> Some k) ns"
  using assms
proof (induction ns)
  case Nil
  then show ?case by simp
next
  case (Cons n ns)
  show ?case
  proof (cases "node_id n = nd")
    case True
    with Cons.prems have k: "first n = Some k" and "first n \<notin> first ` set ns" by auto
    then have "filter (\<lambda>n. first n \<noteq> Some k) ns = ns"
      unfolding filter_id_conv by (metis image_eqI)
    with True k show ?thesis by simp
  next
    case False
    with Cons show ?thesis by auto
  qed
qed

lemma key_node_filter:
  "key_node k' (filter (\<lambda>n. first n \<noteq> Some k) ns) = (if k' = k then None else key_node k' ns)"
  by (induction ns) auto

lemma node_key_correspondence:
  assumes "distinct (map node_id ns)" "distinct (map first ns)" "key_node k ns = Some nd"
  shows "\<forall>n \<in> set ns. (node_id n = nd) = (first n = Some k)"
proof
  fix n assume n: "n \<in> set ns"
  from key_node_Some [OF assms(3)] obtain m where m: "m \<in> set ns" "node_id m = nd" "first m = Some k"
    by blast
  show "(node_id n = nd) = (first n = Some k)"
  proof
    assume "node_id n = nd"
    with m(2) have "node_id n = node_id m" by simp
    with assms(1) n m(1) have "n = m" by (meson distinct_map inj_onD)
    with m(3) show "first n = Some k" by simp
  next
    assume "first n = Some k"
    with m(3) have "first n = first m" by simp
    with assms(2) n m(1) have "n = m" by (meson distinct_map inj_onD)
    with m(2) show "node_id n = nd" by simp
  qed
qed

lemma emplace_absent: "idx k = None \<Longrightarrow> emplace k nd idx = idx(k \<mapsto> nd)"
  by (simp add: emplace_def)

lemma emplace_front_note_ok:
  assumes ok: "data_ok d" and absent: "index d k = None"
    and res: "emplace_front_note fails k v d = (None, d')"
  shows "data_ok d' \<and> entries_of d' = (Some k, v) # entries_of d"
proof -
  define nd where "nd = new_node (notes d)"
  define x where "x = \<lparr>node_id = nd, first = Some k, second = v\<rparr>"
  from ok have ids: "distinct (map node_id (notes d))" and keys: "distinct (map first (notes d))"
    and nonnull: "\<forall>n \<in> set (notes d). first n \<noteq> None"
    and idx: "\<And>k. index d k = key_node k (notes d)"
    unfolding data_ok_iff by blast+
  have fresh: "\<forall>n \<in> set (notes d). node_id n \<noteq> nd"
    unfolding nd_def using new_node_fresh by blast
  have nokey: "\<forall>n \<in> set (notes d). first n \<noteq> Some k"
    using absent idx [of k] by (simp add: key_node_None_iff)
  have sf: "set_first nd k (\<lparr>node_id = nd, first = None, second = v\<rparr> # notes d) = x # notes d"
    using set_first_absent [OF fresh, of k] by (simp add: set_first_def x_def)
  from res have d': "d' = d\<lparr>index := (index d)(k \<mapsto> nd), notes := x # notes d\<rparr>"
    using sf absent
    by (simp add: emplace_front_note_def Let_def nd_def [symmetric] emplace_absent
        split: if_splits)
  have "data_ok d'"
    unfolding data_ok_iff
  proof (intro conjI allI)
    show "distinct (map node_id (notes d'))"
      using ids fresh by (auto simp: d' x_def)
    show "distinct (map first (notes d'))"
      using keys nokey by (auto simp: d' x_def)
    show "\<forall>n \<in> set (notes d'). first n \<noteq> None"
      using nonnull by (simp add: d' x_def)
    show "index d' k' = key_node k' (notes d')" for k'
      using idx [of k'] by (auto simp: d' x_def)
  qed
  moreover have "entries_of d' = (Some k, v) # entries_of d"
    by (simp add: entries_of_def d' x_def)
  ultimately show ?thesis by simp
qed

lemma insert_note_after_ok:
  assumes ok: "data_ok d" and prev: "index d pk \<noteq> None" and absent: "index d k = None"
    and res: "insert_note_after fails pk k v d = (None, d')"
  shows "data_ok d' \<and> entries_of d' = place_after (Some pk) (Some k, v) (entries_of d)"
proof -
  define nd where "nd = new_node (notes d)"
  define x0 where "x0 = \<lparr>node_id = nd, first = None :: 'a option, second = v\<rparr>"
  define x where "x = \<lparr>node_id = nd, first = Some k, second = v\<rparr>"
  from prev obtain pit where pit: "index d pk = Some pit" by blast
  from ok have ids: "distinct (map node_id (notes d))" and keys: "distinct (map first (notes d))"
    and nonnull: "\<forall>n \<in> set (notes d). first n \<noteq> None"
    and idx: "\<And>k. index d k = key_node k (notes d)"
    unfolding data_ok_iff by blast+
  have fresh: "\<forall>n \<in> set (notes d). node_id n \<noteq> nd"
    unfolding nd_def using new_node_fresh by blast
  have nokey: "\<forall>n \<in> set (notes d). first n \<noteq> Some k"
    using absent idx [of k] by (simp add: key_node_None_iff)
  have kn: "key_node pk (notes d) = Some pit" using pit idx [of pk] by simp
  have corr: "\<forall>n \<in> set (notes d). (node_id n = pit) = (first n = Some pk)"
    by (rule node_key_correspondence [OF ids keys kn])
  have pin: "pit \<in> node_id ` set (notes d)"
    using key_node_Some [OF kn] by force
  have sf: "set_first nd k (insert_next pit x0 (notes d)) = insert_next pit x (notes d)"
    using set_first_insert_next [of "notes d" x0 k pit] fresh by (simp add: x0_def x_def)
  from res have d': "d' = d\<lparr>index := (index d)(k \<mapsto> nd), notes := insert_next pit x (notes d)\<rparr>"
    using sf absent pit
    by (simp add: insert_note_after_def Let_def nd_def [symmetric] x0_def [symmetric]
        emplace_absent split: if_splits)
  have xnew: "x \<notin> set (notes d)" using fresh by (auto simp: x_def)
  have sub: "set (insert_next pit x (notes d)) \<subseteq> insert x (set (notes d))"
    by (rule set_insert_next)
  have "data_ok d'"
    unfolding data_ok_iff
  proof (intro conjI allI)
    have "inj_on node_id (insert x (set (notes d)))"
      using ids fresh by (auto simp: distinct_map x_def inj_on_def)
    from distinct_insert_next [OF this ids xnew]
    show "distinct (map node_id (notes d'))" by (simp add: d')
    have "inj_on first (insert x (set (notes d)))"
      using keys nokey by (auto simp: distinct_map x_def inj_on_def)
    from distinct_insert_next [OF this keys xnew]
    show "distinct (map first (notes d'))" by (simp add: d')
    show "\<forall>n \<in> set (notes d'). first n \<noteq> None"
      using nonnull sub by (auto simp: d' x_def)
    show "index d' k' = key_node k' (notes d')" for k'
      using key_node_insert_next [of x k "notes d" pit k'] nokey pin idx [of k']
      by (simp add: d' x_def)
  qed
  moreover have "entries_of d' = place_after (Some pk) (Some k, v) (entries_of d)"
    using entries_insert_next [OF corr, of x] by (simp add: entries_of_def d' x_def)
  ultimately show ?thesis by simp
qed

lemma length_erase_node:
  "nd \<in> node_id ` set ns \<Longrightarrow> length (erase_node nd ns) + 1 = length ns"
  by (induction ns) auto

lemma erase_indexed_ok:
  assumes ok: "data_ok d" and present: "index d k = Some nd"
  shows "data_ok (d\<lparr>index := (index d)(k := None), notes := erase_node nd (notes d)\<rparr>)
    \<and> entries_of (d\<lparr>index := (index d)(k := None), notes := erase_node nd (notes d)\<rparr>)
        = filter (\<lambda>e. fst e \<noteq> Some k) (entries_of d)
    \<and> length (erase_node nd (notes d)) + 1 = length (notes d)"
proof -
  from ok have ids: "distinct (map node_id (notes d))" and keys: "distinct (map first (notes d))"
    and nonnull: "\<forall>n \<in> set (notes d). first n \<noteq> None"
    and idx: "\<And>k. index d k = key_node k (notes d)"
    unfolding data_ok_iff by blast+
  have kn: "key_node k (notes d) = Some nd" using present idx [of k] by simp
  have corr: "\<forall>n \<in> set (notes d). (node_id n = nd) = (first n = Some k)"
    by (rule node_key_correspondence [OF ids keys kn])
  have er: "erase_node nd (notes d) = filter (\<lambda>n. first n \<noteq> Some k) (notes d)"
    by (rule erase_node_filter [OF corr keys])
  have "data_ok (d\<lparr>index := (index d)(k := None), notes := erase_node nd (notes d)\<rparr>)"
    unfolding data_ok_iff
  proof (intro conjI allI)
    show "distinct (map node_id (notes (d\<lparr>index := (index d)(k := None), notes := erase_node nd (notes d)\<rparr>)))"
      using ids by (simp add: er distinct_map_filter)
    show "distinct (map first (notes (d\<lparr>index := (index d)(k := None), notes := erase_node nd (notes d)\<rparr>)))"
      using keys by (simp add: er distinct_map_filter)
    show "\<forall>n \<in> set (notes (d\<lparr>index := (index d)(k := None), notes := erase_node nd (notes d)\<rparr>)). first n \<noteq> None"
      using nonnull by (simp add: er)
    show "index (d\<lparr>index := (index d)(k := None), notes := erase_node nd (notes d)\<rparr>) k'
        = key_node k' (notes (d\<lparr>index := (index d)(k := None), notes := erase_node nd (notes d)\<rparr>))" for k'
      using idx [of k'] by (simp add: er key_node_filter)
  qed
  moreover have "entries_of (d\<lparr>index := (index d)(k := None), notes := erase_node nd (notes d)\<rparr>)
        = filter (\<lambda>e. fst e \<noteq> Some k) (entries_of d)"
    by (simp add: entries_of_def er filter_map comp_def)
  moreover have "length (erase_node nd (notes d)) + 1 = length (notes d)"
  proof -
    from key_node_Some [OF kn] have "nd \<in> node_id ` set (notes d)" by force
    then show ?thesis by (rule length_erase_node)
  qed
  ultimately show ?thesis by simp
qed

lemma world_ok_data:
  "world_ok w \<Longrightarrow> h < length (handles w) \<Longrightarrow> data (handles w ! h) = Some p \<Longrightarrow> data_ok (heap w p)"
  unfolding world_ok_def using nth_mem [of h "handles w"] by blast

lemma commit_ok:
  assumes ok: "world_ok w" and h: "h < length (handles w)" and p: "data (handles w ! h) = Some p"
    and hs: "handles w' = (handles w)[h := \<lparr>data = Some (edit_target w p), unsharable = f\<rparr>]"
    and frame: "\<forall>a. a \<noteq> edit_target w p \<longrightarrow> heap w' a = heap w a"
    and d: "data_ok (heap w' (edit_target w p))"
  shows "world_ok w' \<and> length (handles w') = length (handles w)
    \<and> contents h w' = entries_of (heap w' (edit_target w p))"
proof -
  have "data_ok (heap w' q)" if b: "b \<in> set (handles w')" and q: "data b = Some q" for b q
  proof -
    from b obtain j where j: "j < length (handles w')" "handles w' ! j = b"
      unfolding in_set_conv_nth by blast
    show ?thesis
    proof (cases "j = h")
      case True
      from hs h have "data (handles w' ! h) = Some (edit_target w p)"
        by simp
      with True j(2) q have "q = edit_target w p" by simp
      with d show ?thesis by simp
    next
      case False
      with j hs have jl: "j < length (handles w)" and bj: "handles w ! j = b" by simp_all
      from edit_target_exclusive [OF h p jl False] bj q have "q \<noteq> edit_target w p" by auto
      with frame have "heap w' q = heap w q" by simp
      with world_ok_data [OF ok jl] bj q show ?thesis by simp
    qed
  qed
  then have "world_ok w'" unfolding world_ok_def by blast
  with hs h show ?thesis by (simp add: contents_def)
qed

lemma insert_front_ok:
  assumes ok: "world_ok w" and h: "h < length (handles w)" and p: "data (handles w ! h) = Some p"
    and res: "insert_front fails h k v w = (Inr u, w')"
  shows "world_ok w' \<and> length (handles w') = length (handles w)
    \<and> contents h w' = (Some k, v) # contents h w"
proof -
  from res p have absent: "index (heap w p) k = None"
    by (simp add: insert_front_def split: if_splits)
  obtain r1 w1 where g: "going_to_edit fails h w = (r1, w1)"
    by (cases "going_to_edit fails h w")
  from res p absent g obtain nd where r1: "r1 = Inr (Some nd)"
    by (cases r1) (auto simp: insert_front_def split: option.splits)
  note ge = going_to_edit_ok [OF ok h p g [unfolded r1]]
  then have nd: "nd = edit_target w p" by simp
  obtain eo d' where e: "emplace_front_note fails k v (heap w1 nd) = (eo, d')"
    by (cases "emplace_front_note fails k v (heap w1 nd)")
  from res p absent g r1 e have eo: "eo = None"
    and w': "w' = successful_edit h (Some nd) (w1\<lparr>heap := (heap w1)(nd := d')\<rparr>)"
    by (cases eo; simp add: insert_front_def)+
  from ge nd have src: "heap w1 nd = heap w p" by simp
  from emplace_front_note_ok [OF world_ok_data [OF ok h p] absent e [unfolded eo src]]
  have d': "data_ok d'" "entries_of d' = (Some k, v) # entries_of (heap w p)" by simp_all
  have "world_ok w' \<and> length (handles w') = length (handles w)
      \<and> contents h w' = entries_of (heap w' (edit_target w p))"
  proof (rule commit_ok [OF ok h p])
    show "handles w' = (handles w)[h := \<lparr>data = Some (edit_target w p), unsharable = False\<rparr>]"
      using ge nd by (simp add: w' successful_edit_def)
    show "\<forall>a. a \<noteq> edit_target w p \<longrightarrow> heap w' a = heap w a"
      using ge nd by (simp add: w' successful_edit_def)
    show "data_ok (heap w' (edit_target w p))"
      using d' nd by (simp add: w' successful_edit_def)
  qed
  moreover have "heap w' (edit_target w p) = d'"
    using nd by (simp add: w' successful_edit_def)
  ultimately show ?thesis using d' p by (simp add: contents_def)
qed

lemma insert_after_ok:
  assumes ok: "world_ok w" and h: "h < length (handles w)" and p: "data (handles w ! h) = Some p"
    and res: "insert_after fails h pk k v w = (Inr u, w')"
  shows "world_ok w' \<and> length (handles w') = length (handles w)
    \<and> contents h w' = place_after (Some pk) (Some k, v) (contents h w)
    \<and> Some pk \<in> fst ` set (contents h w)"
proof -
  from res p have prev: "index (heap w p) pk \<noteq> None" and absent: "index (heap w p) k = None"
    by (simp_all add: insert_after_def split: if_splits)
  obtain r1 w1 where g: "going_to_edit fails h w = (r1, w1)"
    by (cases "going_to_edit fails h w")
  from res p absent prev g obtain nd where r1: "r1 = Inr (Some nd)"
    by (cases r1) (auto simp: insert_after_def split: option.splits)
  note ge = going_to_edit_ok [OF ok h p g [unfolded r1]]
  then have nd: "nd = edit_target w p" by simp
  obtain eo d' where e: "insert_note_after fails pk k v (heap w1 nd) = (eo, d')"
    by (cases "insert_note_after fails pk k v (heap w1 nd)")
  from res p absent prev g r1 e have eo: "eo = None"
    and w': "w' = successful_edit h (Some nd) (w1\<lparr>heap := (heap w1)(nd := d')\<rparr>)"
    by (cases eo; simp add: insert_after_def)+
  from ge nd have src: "heap w1 nd = heap w p" by simp
  note dok = world_ok_data [OF ok h p]
  from insert_note_after_ok [OF dok prev absent e [unfolded eo src]]
  have d': "data_ok d'" "entries_of d' = place_after (Some pk) (Some k, v) (entries_of (heap w p))"
    by simp_all
  have "world_ok w' \<and> length (handles w') = length (handles w)
      \<and> contents h w' = entries_of (heap w' (edit_target w p))"
  proof (rule commit_ok [OF ok h p])
    show "handles w' = (handles w)[h := \<lparr>data = Some (edit_target w p), unsharable = False\<rparr>]"
      using ge nd by (simp add: w' successful_edit_def)
    show "\<forall>a. a \<noteq> edit_target w p \<longrightarrow> heap w' a = heap w a"
      using ge nd by (simp add: w' successful_edit_def)
    show "data_ok (heap w' (edit_target w p))"
      using d' nd by (simp add: w' successful_edit_def)
  qed
  moreover have "heap w' (edit_target w p) = d'"
    using nd by (simp add: w' successful_edit_def)
  moreover have "Some pk \<in> fst ` set (contents h w)"
  proof -
    from prev obtain pit where "index (heap w p) pk = Some pit" by blast
    with dok have "key_node pk (notes (heap w p)) = Some pit" by (simp add: data_ok_iff)
    from key_node_Some [OF this] show ?thesis
      using p by (force simp: contents_def entries_of_def)
  qed
  ultimately show ?thesis using d' p by (simp add: contents_def)
qed

lemma remove_key_ok:
  assumes ok: "world_ok w" and h: "h < length (handles w)" and p: "data (handles w ! h) = Some p"
    and res: "remove_key fails h k w = (Inr u, w')"
  shows "world_ok w' \<and> length (handles w') = length (handles w)
    \<and> contents h w' = filter (\<lambda>e. fst e \<noteq> Some k) (contents h w)
    \<and> length (contents h w') + 1 = length (contents h w)"
proof -
  from res p have present: "index (heap w p) k \<noteq> None"
    by (simp add: remove_key_def split: if_splits)
  obtain r1 w1 where g: "going_to_edit fails h w = (r1, w1)"
    by (cases "going_to_edit fails h w")
  from res p present g obtain nd where r1: "r1 = Inr (Some nd)"
    by (cases r1) (auto simp: remove_key_def split: option.splits)
  note ge = going_to_edit_ok [OF ok h p g [unfolded r1]]
  then have nd: "nd = edit_target w p" and src: "heap w1 nd = heap w p" by simp_all
  from present obtain it_notes where itn: "index (heap w p) k = Some it_notes" by blast
  define d' where "d' = (heap w p)\<lparr>index := (index (heap w p))(k := None),
      notes := erase_node it_notes (notes (heap w p))\<rparr>"
  from res p present g r1 src itn
  have w': "w' = successful_edit h (Some nd) (w1\<lparr>heap := (heap w1)(nd := d')\<rparr>)"
    by (simp add: remove_key_def d'_def)
  from erase_indexed_ok [OF world_ok_data [OF ok h p] itn]
  have d': "data_ok d'" "entries_of d' = filter (\<lambda>e. fst e \<noteq> Some k) (entries_of (heap w p))"
    "length (notes d') + 1 = length (notes (heap w p))"
    by (simp_all add: d'_def)
  have "world_ok w' \<and> length (handles w') = length (handles w)
      \<and> contents h w' = entries_of (heap w' (edit_target w p))"
  proof (rule commit_ok [OF ok h p])
    show "handles w' = (handles w)[h := \<lparr>data = Some (edit_target w p), unsharable = False\<rparr>]"
      using ge nd by (simp add: w' successful_edit_def)
    show "\<forall>a. a \<noteq> edit_target w p \<longrightarrow> heap w' a = heap w a"
      using ge nd by (simp add: w' successful_edit_def)
    show "data_ok (heap w' (edit_target w p))"
      using d' nd by (simp add: w' successful_edit_def)
  qed
  moreover have "heap w' (edit_target w p) = d'"
    using nd by (simp add: w' successful_edit_def)
  moreover have "length (entries_of d') + 1 = length (entries_of (heap w p))"
    using d'(3) by (simp add: entries_of_def)
  moreover have "contents h w = entries_of (heap w p)"
    using p by (simp add: contents_def)
  ultimately show ?thesis using d'(1,2) by simp
qed

lemma filter_head_key:
  assumes "distinct (map fst es)" "es = e # rest"
  shows "filter (\<lambda>x. fst x \<noteq> fst e) es = rest"
proof -
  from assms have "fst e \<notin> fst ` set rest" by auto
  then have "filter (\<lambda>x. fst x \<noteq> fst e) rest = rest"
    unfolding filter_id_conv by (metis image_eqI)
  with assms(2) show ?thesis by simp
qed

lemma remove_first_ok:
  assumes ok: "world_ok w" and h: "h < length (handles w)" and p: "data (handles w ! h) = Some p"
    and res: "remove_first fails h w = (Inr u, w')"
  shows "world_ok w' \<and> length (handles w') = length (handles w)
    \<and> contents h w' = tl (contents h w)
    \<and> length (contents h w') + 1 = length (contents h w)"
proof -
  from res p obtain n ns k where ns: "notes (heap w p) = n # ns" and k: "first n = Some k"
    and rk: "remove_key fails h k w = (Inr u, w')"
    by (auto simp: remove_first_def split: if_splits list.splits option.splits)
  note r = remove_key_ok [OF ok h p rk]
  from world_ok_data [OF ok h p] have "distinct (map first (notes (heap w p)))"
    by (simp add: data_ok_iff)
  then have "distinct (map fst (contents h w))"
    using p by (simp add: contents_def entries_of_def comp_def)
  moreover have "contents h w = (Some k, second n) # map (\<lambda>n. (first n, second n)) ns"
    using p ns k by (simp add: contents_def entries_of_def)
  ultimately have "filter (\<lambda>x. fst x \<noteq> Some k) (contents h w) = tl (contents h w)"
    using filter_head_key [of "contents h w" "(Some k, second n)"] by simp
  moreover from r have "world_ok w'" "length (handles w') = length (handles w)"
    "contents h w' = filter (\<lambda>e. fst e \<noteq> Some k) (contents h w)"
    "length (contents h w') + 1 = length (contents h w)"
    by blast+
  ultimately show ?thesis by metis
qed

lemma read_ok:
  assumes ok: "world_ok w" and h: "h < length (handles w)" and p: "data (handles w ! h) = Some p"
    and res: "read fails h k w = (Inr x, w')"
  shows "world_ok w' \<and> length (handles w') = length (handles w)
    \<and> contents h w' = contents h w"
proof -
  from res p have present: "index (heap w p) k \<noteq> None"
    by (simp add: read_def split: if_splits)
  obtain r1 w1 where g: "going_to_edit fails h w = (r1, w1)"
    by (cases "going_to_edit fails h w")
  from res p present g obtain nd where r1: "r1 = Inr (Some nd)"
    by (cases r1) (auto simp: read_def split: option.splits)
  note ge = going_to_edit_ok [OF ok h p g [unfolded r1]]
  then have nd: "nd = edit_target w p" and src: "heap w1 nd = heap w p" by simp_all
  from res p present g r1 src
  have w': "w' = set_unsharable h True (successful_edit h (Some nd) w1)"
    by (auto simp: read_def split: option.splits)
  have "world_ok w' \<and> length (handles w') = length (handles w)
      \<and> contents h w' = entries_of (heap w' (edit_target w p))"
  proof (rule commit_ok [OF ok h p])
    show "handles w' = (handles w)[h := \<lparr>data = Some (edit_target w p), unsharable = True\<rparr>]"
      using ge nd h by (simp add: w' successful_edit_def set_unsharable_def)
    show "\<forall>a. a \<noteq> edit_target w p \<longrightarrow> heap w' a = heap w a"
      using ge nd by (simp add: w' successful_edit_def set_unsharable_def)
    show "data_ok (heap w' (edit_target w p))"
      using src nd world_ok_data [OF ok h p] by (simp add: w' successful_edit_def set_unsharable_def)
  qed
  moreover have "heap w' (edit_target w p) = heap w p"
    using nd src by (simp add: w' successful_edit_def set_unsharable_def)
  ultimately show ?thesis using p by (simp add: contents_def)
qed

text \<open>
  The loop from \<^verbatim>\<open>cbegin()\<close> to \<^verbatim>\<open>cend()\<close> stops and returns the values in the
  order of the list.
\<close>

lemma find_node_append:
  "\<forall>m \<in> set pre. node_id m \<noteq> nd \<Longrightarrow> find_node nd (pre @ ns) = find_node nd ns"
  by (induction pre) auto

lemma node_after_append:
  "\<forall>m \<in> set pre. node_id m \<noteq> nd \<Longrightarrow> node_after p nd (pre @ ns) = node_after p nd ns"
  by (induction pre) auto

lemma iterate_suffix:
  assumes "notes (heap w p) = pre @ rest" "distinct (map node_id (pre @ rest))"
  shows "iterate w \<lparr>it = start_of p rest, null_data = False\<rparr> \<lparr>it = End p, null_data = False\<rparr>
    = Some (map second rest)"
  using assms
proof (induction rest arbitrary: pre)
  case Nil
  show ?case
    by (subst iterate.simps) (simp add: start_of_def iterator_neq_def iterator_eq_def)
next
  case (Cons n rest)
  from Cons.prems(2) have "node_id n \<notin> node_id ` set pre" by auto
  then have away: "\<forall>m \<in> set pre. node_id m \<noteq> node_id n" by (metis image_eqI)
  have neq: "iterator_neq \<lparr>it = At p (node_id n), null_data = False\<rparr> \<lparr>it = End p, null_data = False\<rparr>"
    by (simp add: iterator_neq_def iterator_eq_def)
  have deref: "dereference w \<lparr>it = At p (node_id n), null_data = False\<rparr> = Some (second n)"
    using find_node_append [OF away, of "n # rest"] Cons.prems(1) by (simp add: dereference_def)
  have incr: "increment w \<lparr>it = At p (node_id n), null_data = False\<rparr>
      = Some \<lparr>it = start_of p rest, null_data = False\<rparr>"
    using node_after_append [OF away, of p "n # rest"] Cons.prems(1)
    by (simp add: increment_def start_of_def split: list.splits)
  have "notes (heap w p) = (pre @ [n]) @ rest" "distinct (map node_id ((pre @ [n]) @ rest))"
    using Cons.prems by simp_all
  from Cons.IH [OF this]
  have ih: "iterate w \<lparr>it = start_of p rest, null_data = False\<rparr> \<lparr>it = End p, null_data = False\<rparr>
      = Some (map second rest)" .
  have st: "start_of p (n # rest) = At p (node_id n)" by (simp add: start_of_def)
  show ?case
    by (subst iterate.simps) (simp add: st neq deref incr ih)
qed

lemma values_of_ok:
  assumes "world_ok w" "h < length (handles w)"
  shows "values_of h w = Some (map snd (contents h w))"
proof (cases "data (handles w ! h)")
  case None
  then show ?thesis
    by (subst values_of_def, subst iterate.simps)
       (simp add: cbegin_def cend_def iterator_neq_def iterator_eq_def contents_def)
next
  case (Some p)
  from world_ok_data [OF assms Some] have ids: "distinct (map node_id ([] @ notes (heap w p)))"
    by (simp add: data_ok_iff)
  have "notes (heap w p) = [] @ notes (heap w p)" by simp
  from iterate_suffix [OF this ids] Some show ?thesis
    by (simp add: values_of_def cbegin_def cend_def start_of_def contents_def entries_of_def comp_def)
qed

text \<open>Each successful call is one step of the logical order.\<close>

lemma place_after_embed:
  "map (map_prod Some id) (place_after p (k, v) xs)
   = place_after (Some p) (Some k, v) (map (map_prod Some id) xs)"
  by (induction xs) auto

lemma logical_step_embed:
  "map (map_prod Some id) (logical_step c xs)
   = logical_step (map_call Some id c) (map (map_prod Some id) xs)"
proof (cases c)
  case (InsertAfter p k v)
  then show ?thesis by (simp add: place_after_embed)
next
  case (RemoveKey k)
  then show ?thesis by (simp add: filter_map comp_def)
qed (simp_all add: map_tl)

lemma length_place_after:
  "p \<in> fst ` set xs \<Longrightarrow> length (place_after p x xs) = Suc (length xs)"
  by (induction xs) auto

lemma world_ok_allocated:
  assumes ok: "world_ok w" and h: "h < length (handles w)"
  shows "world_ok (w\<lparr>heap := (heap w)(new_addr w := empty_data),
      handles := (handles w)[h := (handles w ! h)\<lparr>data := Some (new_addr w)\<rparr>]\<rparr>)"
  unfolding world_ok_def
proof (intro ballI allI impI)
  fix b q
  assume b: "b \<in> set (handles (w\<lparr>heap := (heap w)(new_addr w := empty_data),
      handles := (handles w)[h := (handles w ! h)\<lparr>data := Some (new_addr w)\<rparr>]\<rparr>))"
    and q: "data b = Some q"
  from b have "b = (handles w ! h)\<lparr>data := Some (new_addr w)\<rparr> \<or> b \<in> set (handles w)"
    using set_update_subset_insert [of "handles w" h] by auto
  then show "data_ok (heap (w\<lparr>heap := (heap w)(new_addr w := empty_data),
      handles := (handles w)[h := (handles w ! h)\<lparr>data := Some (new_addr w)\<rparr>]\<rparr>) q)"
  proof
    assume "b = (handles w ! h)\<lparr>data := Some (new_addr w)\<rparr>"
    with q show ?thesis by (auto simp: data_ok_empty)
  next
    assume bs: "b \<in> set (handles w)"
    with new_addr_fresh [OF bs] q have "q \<noteq> new_addr w" by auto
    with ok bs q show ?thesis unfolding world_ok_def by auto
  qed
qed

lemma perform_step:
  assumes ok: "world_ok w" and h: "h < length (handles w)"
    and res: "perform fails h c w = (Inr u, w')"
  shows "world_ok w' \<and> length (handles w') = length (handles w)
    \<and> contents h w' = logical_step (map_call Some id c) (contents h w)
    \<and> length (contents h w') + removals [c] = length (contents h w) + insertions [c]"
proof (cases "data (handles w ! h)")
  case (Some p)
  show ?thesis
  proof (cases c)
    case (InsertFront k v)
    with res insert_front_ok [OF ok h Some, of fails k v u w'] show ?thesis by simp
  next
    case (InsertAfter pk k v)
    with res insert_after_ok [OF ok h Some, of fails pk k v u w'] show ?thesis
      by (simp add: length_place_after)
  next
    case RemoveFirst
    with res have "remove_first fails h w = (Inr u, w')" by simp
    from remove_first_ok [OF ok h Some this]
    have "world_ok w'" "length (handles w') = length (handles w)"
      "contents h w' = tl (contents h w)" "length (contents h w') + 1 = length (contents h w)"
      by blast+
    with RemoveFirst show ?thesis by simp
  next
    case (RemoveKey k)
    with res have "remove_key fails h k w = (Inr u, w')" by simp
    from remove_key_ok [OF ok h Some this]
    have "world_ok w'" "length (handles w') = length (handles w)"
      "contents h w' = filter (\<lambda>e. fst e \<noteq> Some k) (contents h w)"
      "length (contents h w') + 1 = length (contents h w)"
      by blast+
    with RemoveKey show ?thesis by simp
  next
    case (ReadMutable k)
    with res obtain x where "read fails h k w = (Inr x, w')"
      by (cases "read fails h k w") (auto split: sum.splits)
    from read_ok [OF ok h Some this] ReadMutable show ?thesis by simp
  qed
next
  case None
  then have empty: "contents h w = []" by (simp add: contents_def)
  show ?thesis
  proof (cases c)
    case (InsertFront k v)
    define w0 where "w0 = w\<lparr>heap := (heap w)(new_addr w := empty_data),
      handles := (handles w)[h := (handles w ! h)\<lparr>data := Some (new_addr w)\<rparr>]\<rparr>"
    from res InsertFront have r: "insert_front fails h k v w = (Inr u, w')" by simp
    have nf: "\<not> fails AllocData"
    proof
      assume "fails AllocData"
      with insert_front_empty_alloc_fails [of w h fails k v] None r show False by simp
    qed
    from insert_front_empty [of h w fails k v] h None nf r
    have r0: "insert_front fails h k v w0 = (Inr u, w')" by (simp add: w0_def)
    have ok0: "world_ok w0" unfolding w0_def by (rule world_ok_allocated [OF ok h])
    have h0: "h < length (handles w0)" and d0: "data (handles w0 ! h) = Some (new_addr w)"
      using h by (simp_all add: w0_def)
    have c0: "contents h w0 = []"
      using h by (simp add: contents_def w0_def entries_of_def empty_data_def)
    from insert_front_ok [OF ok0 h0 d0 r0] c0 empty InsertFront show ?thesis
      by (simp add: w0_def)
  next
    case (InsertAfter pk k v)
    with res None show ?thesis by (simp add: insert_after_def)
  next
    case RemoveFirst
    with res None show ?thesis by (simp add: remove_first_def size_binder_def)
  next
    case (RemoveKey k)
    with res None show ?thesis by (simp add: remove_key_def)
  next
    case (ReadMutable k)
    with res None show ?thesis by (simp add: read_def)
  qed
qed

lemma insertions_Cons: "insertions (c # cs) = insertions [c] + insertions cs"
  by (cases c) simp_all

lemma removals_Cons: "removals (c # cs) = removals [c] + removals cs"
  by (cases c) simp_all

lemma run_ok:
  assumes "world_ok w" "h < length (handles w)"
    and "contents h w = map (map_prod Some id) xs"
    and "run fails h cs w = (Inr u, w')"
  shows "world_ok w' \<and> h < length (handles w')
    \<and> contents h w' = map (map_prod Some id) (logical_order cs xs)
    \<and> length (logical_order cs xs) + removals cs = length xs + insertions cs"
  using assms
proof (induction cs arbitrary: w xs)
  case Nil
  then show ?case by simp
next
  case (Cons c cs)
  obtain r1 w1 where p: "perform fails h c w = (r1, w1)"
    by (cases "perform fails h c w")
  with Cons.prems(4) obtain u1 where r1: "r1 = Inr u1" and rest: "run fails h cs w1 = (Inr u, w')"
    by (cases r1) auto
  from perform_step [OF Cons.prems(1,2) p [unfolded r1]]
  have ok1: "world_ok w1" and len1: "length (handles w1) = length (handles w)"
    and c1: "contents h w1 = logical_step (map_call Some id c) (contents h w)"
    and l1: "length (contents h w1) + removals [c] = length (contents h w) + insertions [c]"
    by blast+
  from len1 Cons.prems(2) have h1: "h < length (handles w1)" by simp
  from c1 Cons.prems(3) have c1': "contents h w1 = map (map_prod Some id) (logical_step c xs)"
    by (simp only: logical_step_embed)
  with l1 Cons.prems(3) have l1': "length (logical_step c xs) + removals [c] = length xs + insertions [c]"
    by simp
  from Cons.IH [OF ok1 h1 c1' rest] l1'
  show ?case
    using insertions_Cons [of c cs] removals_Cons [of c cs] by simp
qed

subsection \<open>Failed calls, and the invariant in every reachable state\<close>

text \<open>
  The handlers of the insertions restore the snapshot: a part of a call that throws
  leaves the snapshot it worked on as it was.
\<close>

lemma emplace_front_note_failed:
  "emplace_front_note fails k v d = (Some e, d') \<Longrightarrow> d' = d"
  by (auto simp: emplace_front_note_def Let_def split: if_splits)

lemma erase_insert_next:
  "\<forall>n \<in> set ns. node_id n \<noteq> node_id x \<Longrightarrow> erase_node (node_id x) (insert_next pit x ns) = ns"
  by (induction ns) auto

lemma insert_note_after_failed:
  assumes "insert_note_after fails pk k v d = (Some e, d')"
  shows "d' = d"
proof (cases "index d pk")
  case None
  with assms show ?thesis by (simp add: insert_note_after_def)
next
  case (Some pit)
  define x where "x = \<lparr>node_id = new_node (notes d), first = None :: 'a option, second = v\<rparr>"
  have "\<forall>n \<in> set (notes d). node_id n \<noteq> node_id x"
    using new_node_fresh [of _ "notes d"] by (simp add: x_def)
  from erase_insert_next [OF this, of pit]
  have "erase_node (new_node (notes d)) (insert_next pit x (notes d)) = notes d"
    by (simp add: x_def)
  with assms Some show ?thesis
    by (auto simp: insert_note_after_def Let_def x_def split: if_splits)
qed

lemma failed_in_place:
  assumes p: "data (handles w ! h) = Some p" and one: "\<not> use_count w p > 1"
    and res: "perform fails h c w = (Inl e, w')"
  shows "heap w' = heap w"
proof -
  note g = going_to_edit_unshared [OF p one, of fails]
  show ?thesis
  proof (cases c)
    case (InsertFront k v)
    obtain eo d where e: "emplace_front_note fails k v (heap w p) = (eo, d)"
      by (cases "emplace_front_note fails k v (heap w p)")
    with emplace_front_note_failed [of fails k v "heap w p" _ d] res InsertFront p g
    show ?thesis
      by (cases eo) (auto simp: insert_front_def split: if_splits)
  next
    case (InsertAfter pk k v)
    obtain eo d where e: "insert_note_after fails pk k v (heap w p) = (eo, d)"
      by (cases "insert_note_after fails pk k v (heap w p)")
    with insert_note_after_failed [of fails pk k v "heap w p" _ d] res InsertAfter p g
    show ?thesis
      by (cases eo) (auto simp: insert_after_def split: if_splits)
  next
    case (RemoveKey k)
    with res p g show ?thesis
      by (auto simp: remove_key_def split: if_splits option.splits)
  next
    case RemoveFirst
    with res p g show ?thesis
      by (auto simp: remove_first_def remove_key_def split: if_splits option.splits list.splits)
  next
    case (ReadMutable k)
    with res p g show ?thesis
      by (auto simp: read_def split: if_splits option.splits)
  qed
qed

text \<open>
  A mutating call that throws on a binder that holds a snapshot leaves every binder,
  and every snapshot that a binder holds, as they were. (For \<^verbatim>\<open>insert_front\<close> on a
  binder without a snapshot see \<open>insert_front_failure_keeps_allocation\<close> below.)
\<close>

lemma failed_call_keeps_state:
  assumes h: "h < length (handles w)" and p: "data (handles w ! h) = Some p"
    and res: "perform fails h c w = (Inl e, w')"
  shows "handles w' = handles w \<and> (\<forall>a. use_count w a > 0 \<longrightarrow> heap w' a = heap w a)"
proof (cases "use_count w p > 1")
  case True
  from perform_frame [OF h p res] edit_target_shared [OF h p True]
  have "handles w' = handles w" "use_count w (new_addr w) = 0"
    "\<forall>a. a \<noteq> new_addr w \<longrightarrow> heap w' a = heap w a"
    by simp_all
  then show ?thesis by (metis less_numeral_extra(3))
next
  case False
  from perform_frame [OF h p res] have "handles w' = handles w" by simp
  with failed_in_place [OF p False res] show ?thesis by simp
qed

text \<open>
  With the structural invariant the copy constructor of \<^verbatim>\<open>data_t\<close> takes no undefined
  step, and without a failing allocation it returns the snapshot it was given; so
  \<^verbatim>\<open>going_to_edit\<close>, the mutable \<^verbatim>\<open>read\<close> of a present key and the copy constructor
  of the binder succeed.
\<close>

lemma rebuild_index_succeeds:
  assumes "\<And>j. \<not> fails (CloneEmplace j)"
  shows "\<forall>n \<in> set ns. first n \<noteq> None \<Longrightarrow> \<exists>r. rebuild_index fails i ns idx = Inr r"
proof (induction ns arbitrary: i idx)
  case Nil
  then show ?case by simp
next
  case (Cons n ns)
  then obtain k where k: "first n = Some k" by auto
  from Cons obtain r where "rebuild_index fails (i + 1) ns (emplace k (node_id n) idx) = Inr r"
    by (meson list.set_intros(2))
  with k assms show ?case by (cases r) simp
qed

lemma rebuild_index_no_fault:
  "\<forall>n \<in> set ns. first n \<noteq> None \<Longrightarrow> \<exists>r. rebuild_index no_fault i ns idx = Inr r"
  by (rule rebuild_index_succeeds) (simp_all add: no_fault_def)

lemma rebuild_index_defined:
  "\<forall>n \<in> set ns. first n \<noteq> None \<Longrightarrow> rebuild_index fails i ns idx \<noteq> Inl Undefined"
proof (induction ns arbitrary: i idx)
  case Nil
  then show ?case by simp
next
  case (Cons n ns)
  then obtain k where k: "first n = Some k" by auto
  from Cons have "rebuild_index fails (i + 1) ns (emplace k (node_id n) idx) \<noteq> Inl Undefined"
    by (meson list.set_intros(2))
  with k show ?case by (auto split: sum.splits)
qed

lemma copy_data_t_no_fault:
  assumes "data_ok d"
  shows "copy_data_t no_fault d = Inr d"
proof -
  from assms have "\<forall>n \<in> set (notes d). first n \<noteq> None" by (simp add: data_ok_iff)
  from rebuild_index_no_fault [OF this, of 0 Map.empty]
  obtain c where "copy_data_t no_fault d = Inr c"
    by (auto simp: copy_data_t_def no_fault_def)
  with copy_data_t_ok [OF assms this] show ?thesis by simp
qed

lemma copy_data_t_defined:
  assumes "data_ok d"
  shows "copy_data_t fails d \<noteq> Inl Undefined"
proof -
  from assms have "\<forall>n \<in> set (notes d). first n \<noteq> None" by (simp add: data_ok_iff)
  from rebuild_index_defined [OF this, of fails 0 Map.empty]
  show ?thesis by (auto simp: copy_data_t_def split: sum.splits)
qed

lemma going_to_edit_no_fault:
  assumes "world_ok w" "h < length (handles w)" "data (handles w ! h) = Some p"
  shows "\<exists>w1. going_to_edit no_fault h w = (Inr (Some (edit_target w p)), w1)"
proof (cases "use_count w p > 1")
  case False
  with assms(3) show ?thesis by (simp add: going_to_edit_unshared edit_target_def)
next
  case True
  with assms(3) copy_data_t_no_fault [OF world_ok_data [OF assms]] show ?thesis
    by (simp add: going_to_edit_shared edit_target_def no_fault_def)
qed

lemma going_to_edit_defined:
  assumes "world_ok w" "h < length (handles w)" "data (handles w ! h) = Some p"
    and "going_to_edit fails h w = (Inl e, w1)"
  shows "e \<noteq> Undefined"
proof (cases "use_count w p > 1")
  case False
  with assms(3,4) show ?thesis by (simp add: going_to_edit_unshared)
next
  case True
  with assms(3,4) copy_data_t_defined [OF world_ok_data [OF assms(1,2,3)], of fails] show ?thesis
    by (auto simp: going_to_edit_shared split: if_splits sum.splits)
qed

lemma read_succeeds:
  assumes ok: "world_ok w" and h: "h < length (handles w)" and k: "key_present h k w"
  shows "\<exists>r w1. read no_fault h k w = (Inr r, w1)"
proof -
  from k obtain p where p: "data (handles w ! h) = Some p" and present: "index (heap w p) k \<noteq> None"
    by (auto simp: key_present_def split: option.splits)
  from going_to_edit_no_fault [OF ok h p] obtain w1 where
    g: "going_to_edit no_fault h w = (Inr (Some (edit_target w p)), w1)" by blast
  from going_to_edit_ok [OF ok h p g] have "heap w1 (edit_target w p) = heap w p" by simp
  with present obtain nd where "index (heap w1 (edit_target w p)) k = Some nd" by auto
  with p present g show ?thesis by (simp add: read_def)
qed

lemma binder_copy_succeeds:
  assumes ok: "world_ok w" and h: "h < length (handles w)"
  shows "\<exists>h2 w2. binder_copy no_fault h w = (Inr h2, w2)"
proof (cases "unsharable (handles w ! h)")
  case False
  then show ?thesis by (simp add: binder_copy_def)
next
  case True
  show ?thesis
  proof (cases "data (handles w ! h)")
    case None
    with True show ?thesis by (simp add: binder_copy_def)
  next
    case (Some p)
    with True copy_data_t_no_fault [OF world_ok_data [OF ok h Some]] show ?thesis
      by (simp add: binder_copy_def make_shared_copy_def no_fault_def)
  qed
qed

lemma read_then_copy_succeeds:
  assumes ok: "world_ok w" and h: "h < length (handles w)" and k: "key_present h k w"
  shows "\<exists>r w1 h2 w2. read no_fault h k w = (Inr r, w1) \<and> binder_copy no_fault h w1 = (Inr h2, w2)"
proof -
  from read_succeeds [OF ok h k] obtain r w1 where r: "read no_fault h k w = (Inr r, w1)"
    by blast
  from k obtain p where p: "data (handles w ! h) = Some p"
    by (auto simp: key_present_def split: option.splits)
  from read_ok [OF ok h p r] have "world_ok w1" "h < length (handles w1)" using h by simp_all
  from binder_copy_succeeds [OF this] r show ?thesis by blast
qed

text \<open>
  Every operation keeps the structural invariant, whether it returns or throws; the
  state without binders has it, so every state a program reaches has it.
\<close>

lemma use_count_pos_mem: "b \<in> set (handles w) \<Longrightarrow> data b = Some q \<Longrightarrow> use_count w q > 0"
  by (auto simp: use_count_def filter_empty_conv)

lemma world_ok_transfer:
  assumes "world_ok w"
    and "\<And>b q. b \<in> set (handles w') \<Longrightarrow> data b = Some q \<Longrightarrow>
          (\<exists>b0 \<in> set (handles w). data b0 = Some q) \<and> heap w' q = heap w q"
  shows "world_ok w'"
  unfolding world_ok_def
proof (intro ballI allI impI)
  fix b q assume "b \<in> set (handles w')" "data b = Some q"
  from assms(2) [OF this] obtain b0 where "b0 \<in> set (handles w)" "data b0 = Some q"
    and "heap w' q = heap w q" by blast
  with assms(1) show "data_ok (heap w' q)" unfolding world_ok_def by metis
qed

lemma world_ok_failed:
  assumes ok: "world_ok w" and h: "h < length (handles w)" and p: "data (handles w ! h) = Some p"
    and res: "perform fails h c w = (Inl e, w')"
  shows "world_ok w'"
proof (rule world_ok_transfer [OF ok])
  fix b q assume b: "b \<in> set (handles w')" and q: "data b = Some q"
  from failed_call_keeps_state [OF h p res]
  have hs: "handles w' = handles w" and fr: "\<forall>a. use_count w a > 0 \<longrightarrow> heap w' a = heap w a"
    by simp_all
  from b hs have b0: "b \<in> set (handles w)" by simp
  from use_count_pos_mem [OF b0 q] fr have "heap w' q = heap w q" by simp
  with b0 q show "(\<exists>b0 \<in> set (handles w). data b0 = Some q) \<and> heap w' q = heap w q" by blast
qed

lemma world_ok_perform:
  assumes ok: "world_ok w" and h: "h < length (handles w)"
    and res: "perform fails h c w = (r, w')"
  shows "world_ok w'"
proof (cases r)
  case (Inr u)
  with perform_step [OF ok h, of fails c u w'] res show ?thesis by simp
next
  case (Inl e)
  show ?thesis
  proof (cases "data (handles w ! h)")
    case (Some p)
    from world_ok_failed [OF ok h Some] res Inl show ?thesis by simp
  next
    case None
    show ?thesis
    proof (cases c)
      case (InsertFront k v)
      show ?thesis
      proof (cases "fails AllocData")
        case True
        with insert_front_empty_alloc_fails [of w h fails k v] None res InsertFront ok
        show ?thesis by simp
      next
        case False
        define w0 where "w0 = w\<lparr>heap := (heap w)(new_addr w := empty_data),
          handles := (handles w)[h := (handles w ! h)\<lparr>data := Some (new_addr w)\<rparr>]\<rparr>"
        from insert_front_empty [of h w fails k v] h None False res InsertFront Inl
        have r0: "perform fails h (InsertFront k v) w0 = (Inl e, w')" by (simp add: w0_def)
        have ok0: "world_ok w0" unfolding w0_def by (rule world_ok_allocated [OF ok h])
        have h0: "h < length (handles w0)" and d0: "data (handles w0 ! h) = Some (new_addr w)"
          using h by (simp_all add: w0_def)
        from world_ok_failed [OF ok0 h0 d0 r0] show ?thesis .
      qed
    next
      case (InsertAfter pk k v)
      with res None ok show ?thesis by (auto simp: insert_after_def)
    next
      case RemoveFirst
      with res None ok show ?thesis by (auto simp: remove_first_def size_binder_def)
    next
      case (RemoveKey k)
      with res None ok show ?thesis by (auto simp: remove_key_def)
    next
      case (ReadMutable k)
      with res None ok show ?thesis by (auto simp: read_def)
    qed
  qed
qed

lemma world_ok_binder_copy:
  assumes ok: "world_ok w" and h: "src < length (handles w)"
    and res: "binder_copy fails src w = (r, w')"
  shows "world_ok w'"
proof (cases "unsharable (handles w ! src) \<and> data (handles w ! src) \<noteq> None")
  case False
  then have w': "w' = w\<lparr>handles := handles w @ [\<lparr>data = data (handles w ! src), unsharable = False\<rparr>]\<rparr>"
    using res by (cases "unsharable (handles w ! src)"; cases "data (handles w ! src)")
      (auto simp: binder_copy_def)
  show ?thesis
  proof (rule world_ok_transfer [OF ok])
    fix b q assume "b \<in> set (handles w')" "data b = Some q"
    with w' nth_mem [OF h]
    show "(\<exists>b0 \<in> set (handles w). data b0 = Some q) \<and> heap w' q = heap w q" by auto
  qed
next
  case True
  then obtain p where f: "unsharable (handles w ! src)" and p: "data (handles w ! src) = Some p"
    by auto
  note dok = world_ok_data [OF ok h p]
  show ?thesis
  proof (cases "fails AllocData \<or> (\<exists>e. copy_data_t fails (heap w p) = Inl e)")
    case True
    with res f p have "w' = w"
      by (auto simp: binder_copy_def make_shared_copy_def split: if_splits)
    with ok show ?thesis by simp
  next
    case False
    then obtain c where c: "copy_data_t fails (heap w p) = Inr c" and na: "\<not> fails AllocData"
      by (cases "copy_data_t fails (heap w p)") auto
    from copy_data_t_ok [OF dok c] have cd: "c = heap w p" .
    from res f p c na
    have w': "w' = w\<lparr>heap := (heap w)(new_addr w := c),
        handles := handles w @ [\<lparr>data = Some (new_addr w), unsharable = False\<rparr>]\<rparr>"
      by (simp add: binder_copy_def make_shared_copy_def)
    show ?thesis
      unfolding world_ok_def
    proof (intro ballI allI impI)
      fix b q assume b: "b \<in> set (handles w')" and q: "data b = Some q"
      show "data_ok (heap w' q)"
      proof (cases "q = new_addr w")
        case True
        with w' cd dok show ?thesis by simp
      next
        case False
        with b q w' have "b \<in> set (handles w)" by auto
        with ok q have "data_ok (heap w q)" unfolding world_ok_def by blast
        with False w' show ?thesis by simp
      qed
    qed
  qed
qed

lemma world_ok_same_heap:
  assumes "world_ok w" "heap w' = heap w"
    and "\<And>b q. b \<in> set (handles w') \<Longrightarrow> data b = Some q \<Longrightarrow> \<exists>b0 \<in> set (handles w). data b0 = Some q"
  shows "world_ok w'"
  using assms(1)
proof (rule world_ok_transfer)
  fix b q assume "b \<in> set (handles w')" "data b = Some q"
  from assms(3) [OF this] assms(2)
  show "(\<exists>b0 \<in> set (handles w). data b0 = Some q) \<and> heap w' q = heap w q" by simp
qed

lemma world_ok_copy_assign:
  assumes ok: "world_ok w" and h: "h < length (handles w)" and s: "src < length (handles w)"
    and res: "copy_assign fails h src w = (r, w')"
  shows "world_ok w'"
proof -
  obtain r0 w0 where bc: "binder_copy fails src w = (r0, w0)"
    by (cases "binder_copy fails src w")
  note ok0 = world_ok_binder_copy [OF ok s bc]
  from binder_copy_cases [OF bc]
  consider (failed) e where "r0 = Inl e" "w0 = w"
    | (made) nb where "r0 = Inr (length (handles w))" "handles w0 = handles w @ [nb]"
    by blast
  then show ?thesis
  proof cases
    case failed
    with bc res ok show ?thesis by (simp add: copy_assign_def)
  next
    case made
    from bc made(1) res
    have w': "w' = destroy_last (assign_body h (length (handles w)) w0)"
      by (simp add: copy_assign_def)
    from assign_after_construct [OF h made(2)] w'
    have hs: "handles w' = (handles w)[h := \<lparr>data = data nb, unsharable = False\<rparr>]" by simp
    have hp: "heap w' = heap w0" by (simp add: w' destroy_last_def assign_body_def Let_def)
    show ?thesis
    proof (rule world_ok_same_heap [OF ok0 hp])
      fix b q assume b: "b \<in> set (handles w')" and q: "data b = Some q"
      from b hs have "b = \<lparr>data = data nb, unsharable = False\<rparr> \<or> b \<in> set (handles w)"
        using set_update_subset_insert [of "handles w" h] by auto
      then show "\<exists>b0 \<in> set (handles w0). data b0 = Some q"
      proof
        assume "b = \<lparr>data = data nb, unsharable = False\<rparr>"
        with q have "data nb = Some q" by simp
        with made(2) show ?thesis by auto
      next
        assume "b \<in> set (handles w)"
        with made(2) q show ?thesis by auto
      qed
    qed
  qed
qed

lemma world_ok_binder_move:
  assumes ok: "world_ok w" and s: "src < length (handles w)"
  shows "world_ok (snd (binder_move src w))"
proof (rule world_ok_same_heap [OF ok])
  show "heap (snd (binder_move src w)) = heap w" by (simp add: binder_move_handles)
  fix b q assume b: "b \<in> set (handles (snd (binder_move src w)))" and q: "data b = Some q"
  from b have "b = \<lparr>data = data (handles w ! src), unsharable = unsharable (handles w ! src)\<rparr>
      \<or> b = (handles w ! src)\<lparr>data := None\<rparr> \<or> b \<in> set (handles w)"
    using set_update_subset_insert [of "handles w" src] by (auto simp: binder_move_handles)
  with q nth_mem [OF s] show "\<exists>b0 \<in> set (handles w). data b0 = Some q" by auto
qed

lemma world_ok_move_assign:
  assumes ok: "world_ok w" and h: "h < length (handles w)" and s: "src < length (handles w)"
  shows "world_ok (move_assign h src w)"
proof (rule world_ok_same_heap [OF ok])
  show "heap (move_assign h src w) = heap w" by (simp add: move_assign_handles [OF s h])
  fix b q assume b: "b \<in> set (handles (move_assign h src w))" and q: "data b = Some q"
  let ?hs1 = "(handles w)[src := (handles w ! src)\<lparr>data := None\<rparr>]"
  from b have "b = \<lparr>data = data (handles w ! src), unsharable = False\<rparr> \<or> b \<in> set ?hs1"
    using set_update_subset_insert [of ?hs1 h] by (auto simp: move_assign_handles [OF s h])
  then have "b = \<lparr>data = data (handles w ! src), unsharable = False\<rparr>
      \<or> b = (handles w ! src)\<lparr>data := None\<rparr> \<or> b \<in> set (handles w)"
    using set_update_subset_insert [of "handles w" src] by auto
  with q nth_mem [OF s] show "\<exists>b0 \<in> set (handles w). data b0 = Some q" by auto
qed

lemma world_ok_clear:
  assumes ok: "world_ok w"
  shows "world_ok (clear h w)"
proof (rule world_ok_same_heap [OF ok])
  show "heap (clear h w) = heap w" by (simp add: clear_def)
  fix b q assume b: "b \<in> set (handles (clear h w))" and q: "data b = Some q"
  from b have "b = \<lparr>data = None, unsharable = False\<rparr> \<or> b \<in> set (handles w)"
    using set_update_subset_insert [of "handles w" h] by (auto simp: clear_def)
  with q show "\<exists>b0 \<in> set (handles w). data b0 = Some q" by auto
qed

lemma world_ok_default:
  assumes ok: "world_ok w"
  shows "world_ok (snd (binder_default w))"
proof (rule world_ok_same_heap [OF ok])
  show "heap (snd (binder_default w)) = heap w" by (simp add: binder_default_def)
  fix b q assume "b \<in> set (handles (snd (binder_default w)))" "data b = Some q"
  then show "\<exists>b0 \<in> set (handles w). data b0 = Some q" by (auto simp: binder_default_def)
qed

lemma operations_keep_world_ok:
  assumes "world_ok w" "names_binders w op"
  shows "world_ok (apply_operation fails op w)"
proof (cases op)
  case DefaultConstruct
  with world_ok_default [OF assms(1)] show ?thesis by simp
next
  case (CopyConstruct src)
  with assms(2) world_ok_binder_copy [OF assms(1), of src fails] show ?thesis
    by (cases "binder_copy fails src w") simp
next
  case (MoveConstruct src)
  with assms(2) world_ok_binder_move [OF assms(1), of src] show ?thesis by simp
next
  case (CopyAssign h src)
  with assms(2) world_ok_copy_assign [OF assms(1), of h src fails] show ?thesis
    by (cases "copy_assign fails h src w") simp
next
  case (MoveAssign h src)
  with assms(2) world_ok_move_assign [OF assms(1), of h src] show ?thesis by simp
next
  case (Mutate h c)
  with assms(2) world_ok_perform [OF assms(1), of h fails c] show ?thesis
    by (cases "perform fails h c w") simp
next
  case (ReadConst h k)
  with assms(1) show ?thesis by simp
next
  case (Size h)
  with assms(1) show ?thesis by simp
next
  case (Clear h)
  with world_ok_clear [OF assms(1), of h] show ?thesis by simp
qed

lemma world_ok_initial: "world_ok initial_world"
  by (simp add: world_ok_def initial_world_def)

text \<open>In a state with the structural invariant no call takes an undefined step.\<close>

lemma emplace_front_note_error:
  "emplace_front_note fails k v d = (Some e, d') \<Longrightarrow> e = BadAlloc"
  by (auto simp: emplace_front_note_def Let_def split: if_splits)

lemma insert_note_after_error:
  "index d pk \<noteq> None \<Longrightarrow> insert_note_after fails pk k v d = (Some e, d') \<Longrightarrow> e = BadAlloc"
  by (auto simp: insert_note_after_def Let_def split: if_splits)

lemma edit_defined:
  assumes ok: "world_ok w" and h: "h < length (handles w)" and p: "data (handles w ! h) = Some p"
  shows "(\<exists>e. going_to_edit fails h w = (Inl e, w) \<and> e \<noteq> Undefined)
    \<or> (\<exists>w1. going_to_edit fails h w = (Inr (Some (edit_target w p)), w1)
          \<and> heap w1 (edit_target w p) = heap w p)"
proof -
  obtain r1 w1 where g: "going_to_edit fails h w = (r1, w1)"
    by (cases "going_to_edit fails h w")
  show ?thesis
  proof (cases r1)
    case (Inl e)
    from going_to_edit_target [OF p g] Inl have "w1 = w" by simp
    with g Inl going_to_edit_defined [OF ok h p, of fails e w1] show ?thesis by simp
  next
    case (Inr nd)
    from going_to_edit_ok [OF ok h p g [unfolded Inr]] g Inr show ?thesis by simp
  qed
qed

lemma insert_front_defined:
  assumes ok: "world_ok w" and h: "h < length (handles w)" and p: "data (handles w ! h) = Some p"
    and res: "insert_front fails h k v w = (Inl e, w')"
  shows "e \<noteq> Undefined"
proof -
  from edit_defined [OF ok h p, of fails]
  consider (failed) e1 where "going_to_edit fails h w = (Inl e1, w)" "e1 \<noteq> Undefined"
    | (target) w1 where "going_to_edit fails h w = (Inr (Some (edit_target w p)), w1)"
        "heap w1 (edit_target w p) = heap w p"
    by blast
  then show ?thesis
  proof cases
    case (failed e1)
    with res p show ?thesis by (auto simp: insert_front_def split: if_splits)
  next
    case (target w1)
    obtain eo d where eo: "emplace_front_note fails k v (heap w1 (edit_target w p)) = (eo, d)"
      by (cases "emplace_front_note fails k v (heap w1 (edit_target w p))")
    with res p target emplace_front_note_error [of fails k v _ _ d] show ?thesis
      by (cases eo) (auto simp: insert_front_def split: if_splits)
  qed
qed

lemma insert_after_defined:
  assumes ok: "world_ok w" and h: "h < length (handles w)" and p: "data (handles w ! h) = Some p"
    and res: "insert_after fails h pk k v w = (Inl e, w')"
  shows "e \<noteq> Undefined"
proof (cases "index (heap w p) pk = None \<or> index (heap w p) k \<noteq> None")
  case True
  with res p show ?thesis by (auto simp: insert_after_def split: if_splits)
next
  case False
  from edit_defined [OF ok h p, of fails]
  consider (failed) e1 where "going_to_edit fails h w = (Inl e1, w)" "e1 \<noteq> Undefined"
    | (target) w1 where "going_to_edit fails h w = (Inr (Some (edit_target w p)), w1)"
        "heap w1 (edit_target w p) = heap w p"
    by blast
  then show ?thesis
  proof cases
    case (failed e1)
    with res p False show ?thesis by (auto simp: insert_after_def)
  next
    case (target w1)
    obtain eo d where eo: "insert_note_after fails pk k v (heap w1 (edit_target w p)) = (eo, d)"
      by (cases "insert_note_after fails pk k v (heap w1 (edit_target w p))")
    with res p target False insert_note_after_error [of "heap w p" pk fails k v _ d]
    show ?thesis
      by (cases eo) (auto simp: insert_after_def)
  qed
qed

lemma remove_key_defined:
  assumes ok: "world_ok w" and h: "h < length (handles w)" and p: "data (handles w ! h) = Some p"
    and res: "remove_key fails h k w = (Inl e, w')"
  shows "e \<noteq> Undefined"
proof (cases "index (heap w p) k = None")
  case True
  with res p show ?thesis by (auto simp: remove_key_def)
next
  case False
  from edit_defined [OF ok h p, of fails]
  consider (failed) e1 where "going_to_edit fails h w = (Inl e1, w)" "e1 \<noteq> Undefined"
    | (target) w1 where "going_to_edit fails h w = (Inr (Some (edit_target w p)), w1)"
        "heap w1 (edit_target w p) = heap w p"
    by blast
  then show ?thesis
  proof cases
    case (failed e1)
    with res p False show ?thesis by (auto simp: remove_key_def)
  next
    case (target w1)
    with res p False show ?thesis by (auto simp: remove_key_def)
  qed
qed

lemma remove_first_defined:
  assumes ok: "world_ok w" and h: "h < length (handles w)" and p: "data (handles w ! h) = Some p"
    and res: "remove_first fails h w = (Inl e, w')"
  shows "e \<noteq> Undefined"
proof (cases "notes (heap w p)")
  case Nil
  with res p show ?thesis by (auto simp: remove_first_def size_binder_def)
next
  case (Cons n ns)
  from world_ok_data [OF ok h p] Cons obtain k where k: "first n = Some k"
    by (auto simp: data_ok_iff)
  with res p Cons have "remove_key fails h k w = (Inl e, w')"
    by (simp add: remove_first_def size_binder_def)
  from remove_key_defined [OF ok h p this] show ?thesis .
qed

lemma read_defined:
  assumes ok: "world_ok w" and h: "h < length (handles w)" and p: "data (handles w ! h) = Some p"
    and res: "read fails h k w = (Inl e, w')"
  shows "e \<noteq> Undefined"
proof (cases "index (heap w p) k = None")
  case True
  with res p show ?thesis by (auto simp: read_def)
next
  case False
  from edit_defined [OF ok h p, of fails]
  consider (failed) e1 where "going_to_edit fails h w = (Inl e1, w)" "e1 \<noteq> Undefined"
    | (target) w1 where "going_to_edit fails h w = (Inr (Some (edit_target w p)), w1)"
        "heap w1 (edit_target w p) = heap w p"
    by blast
  then show ?thesis
  proof cases
    case (failed e1)
    with res p False show ?thesis by (auto simp: read_def)
  next
    case (target w1)
    with res p False show ?thesis by (auto simp: read_def)
  qed
qed

lemma find_node_mem: "n \<in> set ns \<Longrightarrow> find_node (node_id n) ns \<noteq> None"
  by (induction ns) auto

lemma perform_defined:
  assumes ok: "world_ok w" and h: "h < length (handles w)"
    and res: "perform fails h c w = (Inl e, w')"
  shows "e \<noteq> Undefined"
proof (cases "data (handles w ! h)")
  case (Some p)
  show ?thesis
  proof (cases c)
    case (InsertFront k v)
    with res insert_front_defined [OF ok h Some, of fails k v e w'] show ?thesis by simp
  next
    case (InsertAfter pk k v)
    with res insert_after_defined [OF ok h Some, of fails pk k v e w'] show ?thesis by simp
  next
    case RemoveFirst
    with res remove_first_defined [OF ok h Some, of fails e w'] show ?thesis by simp
  next
    case (RemoveKey k)
    with res remove_key_defined [OF ok h Some, of fails k e w'] show ?thesis by simp
  next
    case (ReadMutable k)
    with res have "read fails h k w = (Inl e, w')"
      by (cases "read fails h k w") (auto split: sum.splits)
    from read_defined [OF ok h Some this] show ?thesis .
  qed
next
  case None
  show ?thesis
  proof (cases c)
    case (InsertFront k v)
    show ?thesis
    proof (cases "fails AllocData")
      case True
      with insert_front_empty_alloc_fails [of w h fails k v] None res InsertFront
      show ?thesis by simp
    next
      case False
      define w0 where "w0 = w\<lparr>heap := (heap w)(new_addr w := empty_data),
        handles := (handles w)[h := (handles w ! h)\<lparr>data := Some (new_addr w)\<rparr>]\<rparr>"
      from insert_front_empty [of h w fails k v] h None False res InsertFront
      have r0: "insert_front fails h k v w0 = (Inl e, w')" by (simp add: w0_def)
      have ok0: "world_ok w0" unfolding w0_def by (rule world_ok_allocated [OF ok h])
      have h0: "h < length (handles w0)" and d0: "data (handles w0 ! h) = Some (new_addr w)"
        using h by (simp_all add: w0_def)
      from insert_front_defined [OF ok0 h0 d0 r0] show ?thesis .
    qed
  next
    case (InsertAfter pk k v)
    with res None show ?thesis by (auto simp: insert_after_def)
  next
    case RemoveFirst
    with res None show ?thesis by (auto simp: remove_first_def size_binder_def)
  next
    case (RemoveKey k)
    with res None show ?thesis by (auto simp: remove_key_def)
  next
    case (ReadMutable k)
    with res None show ?thesis by (auto simp: read_def)
  qed
qed

lemma read_const_defined:
  assumes ok: "world_ok w" and h: "h < length (handles w)"
  shows "read_const h k w \<noteq> Inl Undefined"
proof (cases "data (handles w ! h)")
  case None
  then show ?thesis by (simp add: read_const_def)
next
  case (Some p)
  show ?thesis
  proof (cases "index (heap w p) k")
    case None
    with Some show ?thesis by (simp add: read_const_def)
  next
    case (Some nd)
    with world_ok_data [OF ok h \<open>data (handles w ! h) = Some p\<close>]
    have "key_node k (notes (heap w p)) = Some nd" by (simp add: data_ok_iff)
    from key_node_Some [OF this] obtain n where "n \<in> set (notes (heap w p))" "node_id n = nd"
      by blast
    then have "find_node nd (notes (heap w p)) \<noteq> None"
      using find_node_mem by blast
    with Some \<open>data (handles w ! h) = Some p\<close> show ?thesis
      by (auto simp: read_const_def split: option.splits)
  qed
qed

subsection \<open>Accepted calls return\<close>

text \<open>
  In a state with the structural invariant a binder holds a key exactly when the key
  is among its entries. When no allocation fails, every call that the specification
  accepts returns: \<^verbatim>\<open>remove()\<close> on a binder with an entry, and each of the other
  calls when the keys are as it requires. Conversely a call that returns was accepted.
\<close>

lemma index_present_iff:
  assumes "data_ok d"
  shows "index d k \<noteq> None \<longleftrightarrow> Some k \<in> first ` set (notes d)"
proof
  assume "index d k \<noteq> None"
  then obtain nd where "index d k = Some nd" by auto
  with assms obtain n where "n \<in> set (notes d)" "first n = Some k"
    unfolding data_ok_def by blast
  then show "Some k \<in> first ` set (notes d)" by force
next
  assume "Some k \<in> first ` set (notes d)"
  then obtain n where n: "n \<in> set (notes d)" "first n = Some k" by force
  with assms obtain k' where "first n = Some k'" "index d k' = Some (node_id n)"
    unfolding data_ok_def by blast
  with n show "index d k \<noteq> None" by simp
qed

lemma key_present_contents:
  assumes ok: "world_ok w" and h: "h < length (handles w)"
    and c: "contents h w = map (map_prod Some id) xs"
  shows "key_present h k w \<longleftrightarrow> k \<in> fst ` set xs"
proof (cases "data (handles w ! h)")
  case None
  with c have "xs = []" by (simp add: contents_def)
  with None show ?thesis by (simp add: key_present_def)
next
  case (Some p)
  from world_ok_data [OF ok h Some] have d: "data_ok (heap w p)" .
  from Some c have m: "map (\<lambda>n. (first n, second n)) (notes (heap w p)) = map (map_prod Some id) xs"
    by (simp add: contents_def entries_of_def)
  have "map first (notes (heap w p)) = map fst (map (\<lambda>n. (first n, second n)) (notes (heap w p)))"
    by simp
  also have "\<dots> = map (Some \<circ> fst) xs" by (simp only: m) simp
  finally have "first ` set (notes (heap w p)) = (Some \<circ> fst) ` set xs"
    by (metis set_map)
  then have "Some k \<in> first ` set (notes (heap w p)) \<longleftrightarrow> k \<in> fst ` set xs"
    by auto
  with index_present_iff [OF d, of k] Some show ?thesis by (simp add: key_present_def)
qed

lemma insert_front_succeeds:
  assumes ok: "world_ok w" and h: "h < length (handles w)" and k: "\<not> key_present h k w"
  shows "\<exists>w'. insert_front no_fault h k v w = (Inr (), w')"
proof -
  have held: "\<exists>w'. insert_front no_fault h k v w0 = (Inr (), w')"
    if ok0: "world_ok w0" and h0: "h < length (handles w0)" and p: "data (handles w0 ! h) = Some p"
      and absent: "index (heap w0 p) k = None" for w0 :: "('a, 'b) world" and p
  proof -
    from going_to_edit_no_fault [OF ok0 h0 p] obtain w1 where
      g: "going_to_edit no_fault h w0 = (Inr (Some (edit_target w0 p)), w1)" by blast
    have "\<exists>d. emplace_front_note no_fault k v (heap w1 (edit_target w0 p)) = (None, d)"
      by (simp add: emplace_front_note_def no_fault_def Let_def)
    then obtain d where "emplace_front_note no_fault k v (heap w1 (edit_target w0 p)) = (None, d)"
      by blast
    with p absent g show ?thesis by (simp add: insert_front_def)
  qed
  show ?thesis
  proof (cases "data (handles w ! h)")
    case (Some p)
    with k have "index (heap w p) k = None" by (simp add: key_present_def)
    from held [OF ok h Some this] show ?thesis .
  next
    case None
    define w0 where "w0 = w\<lparr>heap := (heap w)(new_addr w := empty_data),
      handles := (handles w)[h := (handles w ! h)\<lparr>data := Some (new_addr w)\<rparr>]\<rparr>"
    have e: "insert_front no_fault h k v w = insert_front no_fault h k v w0"
      unfolding w0_def by (rule insert_front_empty [OF h None]) (simp add: no_fault_def)
    have ok0: "world_ok w0" unfolding w0_def by (rule world_ok_allocated [OF ok h])
    have h0: "h < length (handles w0)" and d0: "data (handles w0 ! h) = Some (new_addr w)"
      using h by (simp_all add: w0_def)
    have a0: "index (heap w0 (new_addr w)) k = None"
      by (simp add: w0_def empty_data_def)
    from held [OF ok0 h0 d0 a0] e show ?thesis by simp
  qed
qed

lemma insert_after_succeeds:
  assumes ok: "world_ok w" and h: "h < length (handles w)"
    and pk: "key_present h pk w" and k: "\<not> key_present h k w"
  shows "\<exists>w'. insert_after no_fault h pk k v w = (Inr (), w')"
proof -
  from pk obtain p where p: "data (handles w ! h) = Some p" and prev: "index (heap w p) pk \<noteq> None"
    by (auto simp: key_present_def split: option.splits)
  from k p have absent: "index (heap w p) k = None" by (simp add: key_present_def)
  from going_to_edit_no_fault [OF ok h p] obtain w1 where
    g: "going_to_edit no_fault h w = (Inr (Some (edit_target w p)), w1)" by blast
  from going_to_edit_ok [OF ok h p g] have "heap w1 (edit_target w p) = heap w p" by simp
  with prev have "\<exists>d. insert_note_after no_fault pk k v (heap w1 (edit_target w p)) = (None, d)"
    by (auto simp: insert_note_after_def no_fault_def Let_def)
  then obtain d where "insert_note_after no_fault pk k v (heap w1 (edit_target w p)) = (None, d)"
    by blast
  with p prev absent g show ?thesis by (simp add: insert_after_def)
qed

lemma remove_key_succeeds:
  assumes ok: "world_ok w" and h: "h < length (handles w)" and k: "key_present h k w"
  shows "\<exists>w'. remove_key no_fault h k w = (Inr (), w')"
proof -
  from k obtain p where p: "data (handles w ! h) = Some p" and present: "index (heap w p) k \<noteq> None"
    by (auto simp: key_present_def split: option.splits)
  from going_to_edit_no_fault [OF ok h p] obtain w1 where
    g: "going_to_edit no_fault h w = (Inr (Some (edit_target w p)), w1)" by blast
  from going_to_edit_ok [OF ok h p g] have "heap w1 (edit_target w p) = heap w p" by simp
  with present obtain nd where "index (heap w1 (edit_target w p)) k = Some nd" by auto
  with p present g show ?thesis by (simp add: remove_key_def)
qed

lemma remove_first_succeeds:
  assumes ok: "world_ok w" and h: "h < length (handles w)" and s: "size_binder h w \<noteq> 0"
  shows "\<exists>w'. remove_first no_fault h w = (Inr (), w')"
proof -
  from s obtain p where p: "data (handles w ! h) = Some p" and ne: "notes (heap w p) \<noteq> []"
    by (auto simp: size_binder_def split: option.splits)
  from ne obtain n ns where n: "notes (heap w p) = n # ns" by (cases "notes (heap w p)") auto
  from world_ok_data [OF ok h p] n obtain k where
    k: "first n = Some k" "index (heap w p) k = Some (node_id n)"
    unfolding data_ok_def by auto
  with p have "key_present h k w" by (simp add: key_present_def)
  from remove_key_succeeds [OF ok h this] obtain w' where
    "remove_key no_fault h k w = (Inr (), w')" by blast
  with s p n k show ?thesis by (simp add: remove_first_def)
qed

lemma perform_succeeds:
  assumes ok: "world_ok w" and h: "h < length (handles w)"
    and c: "contents h w = map (map_prod Some id) xs"
    and a: "accepted call xs"
  shows "\<exists>w'. perform no_fault h call w = (Inr (), w')"
proof (cases call)
  case (InsertFront k v)
  with a key_present_contents [OF ok h c, of k] insert_front_succeeds [OF ok h, of k v]
  show ?thesis by simp
next
  case (InsertAfter pk k v)
  with a key_present_contents [OF ok h c, of k] key_present_contents [OF ok h c, of pk]
    insert_after_succeeds [OF ok h, of pk k v]
  show ?thesis by simp
next
  case RemoveFirst
  have "size_binder h w = length (contents h w)"
    by (simp add: size_binder_def contents_def entries_of_def split: option.splits)
  with a c RemoveFirst have "size_binder h w \<noteq> 0" by simp
  from remove_first_succeeds [OF ok h this] RemoveFirst show ?thesis by simp
next
  case (RemoveKey k)
  with a key_present_contents [OF ok h c, of k] remove_key_succeeds [OF ok h, of k]
  show ?thesis by simp
next
  case (ReadMutable k)
  with a key_present_contents [OF ok h c, of k] have "key_present h k w" by simp
  from read_succeeds [OF ok h this] obtain r w1 where "read no_fault h k w = (Inr r, w1)"
    by blast
  with ReadMutable show ?thesis by simp
qed

lemma perform_accepted:
  assumes ok: "world_ok w" and h: "h < length (handles w)"
    and c: "contents h w = map (map_prod Some id) xs"
    and res: "perform fails h call w = (Inr u, w')"
  shows "accepted call xs"
proof (cases call)
  case (InsertFront k v)
  with res have "\<not> key_present h k w"
    by (auto simp: insert_front_def key_present_def split: option.splits if_splits)
  with key_present_contents [OF ok h c, of k] InsertFront show ?thesis by simp
next
  case (InsertAfter pk k v)
  with res have "key_present h pk w \<and> \<not> key_present h k w"
    by (auto simp: insert_after_def key_present_def split: option.splits if_splits)
  with key_present_contents [OF ok h c, of k] key_present_contents [OF ok h c, of pk] InsertAfter
  show ?thesis by simp
next
  case RemoveFirst
  with res have "size_binder h w \<noteq> 0"
    by (auto simp: remove_first_def split: if_splits)
  moreover have "size_binder h w = length (contents h w)"
    by (simp add: size_binder_def contents_def entries_of_def split: option.splits)
  ultimately show ?thesis using c RemoveFirst by auto
next
  case (RemoveKey k)
  with res have "key_present h k w"
    by (auto simp: remove_key_def key_present_def split: option.splits if_splits)
  with key_present_contents [OF ok h c, of k] RemoveKey show ?thesis by simp
next
  case (ReadMutable k)
  with res have "key_present h k w"
    by (auto simp: read_def key_present_def split: option.splits if_splits)
  with key_present_contents [OF ok h c, of k] ReadMutable show ?thesis by simp
qed

lemma run_succeeds:
  assumes "world_ok w" "h < length (handles w)"
    and "contents h w = map (map_prod Some id) xs"
    and "accepted_all cs xs"
  shows "\<exists>w'. run no_fault h cs w = (Inr (), w')"
  using assms
proof (induction cs arbitrary: w xs)
  case Nil
  then show ?case by simp
next
  case (Cons c cs)
  from Cons.prems(4) have a: "accepted c xs" and rest: "accepted_all cs (logical_step c xs)"
    by simp_all
  from perform_succeeds [OF Cons.prems(1,2,3) a] obtain w1 where
    p: "perform no_fault h c w = (Inr (), w1)" by blast
  from perform_step [OF Cons.prems(1,2) p]
  have ok1: "world_ok w1" and len1: "length (handles w1) = length (handles w)"
    and c1: "contents h w1 = logical_step (map_call Some id c) (contents h w)"
    by blast+
  from len1 Cons.prems(2) have h1: "h < length (handles w1)" by simp
  from c1 Cons.prems(3) have c1': "contents h w1 = map (map_prod Some id) (logical_step c xs)"
    by (simp only: logical_step_embed)
  from Cons.IH [OF ok1 h1 c1' rest] p show ?case by simp
qed

lemma run_accepted:
  assumes "world_ok w" "h < length (handles w)"
    and "contents h w = map (map_prod Some id) xs"
    and "run fails h cs w = (Inr u, w')"
  shows "accepted_all cs xs"
  using assms
proof (induction cs arbitrary: w xs)
  case Nil
  then show ?case by simp
next
  case (Cons c cs)
  obtain r1 w1 where p: "perform fails h c w = (r1, w1)"
    by (cases "perform fails h c w")
  with Cons.prems(4) obtain u1 where r1: "r1 = Inr u1" and rest: "run fails h cs w1 = (Inr u, w')"
    by (cases r1) auto
  from perform_accepted [OF Cons.prems(1,2,3) p [unfolded r1]] have a: "accepted c xs" .
  from perform_step [OF Cons.prems(1,2) p [unfolded r1]]
  have ok1: "world_ok w1" and len1: "length (handles w1) = length (handles w)"
    and c1: "contents h w1 = logical_step (map_call Some id c) (contents h w)"
    by blast+
  from len1 Cons.prems(2) have h1: "h < length (handles w1)" by simp
  from c1 Cons.prems(3) have c1': "contents h w1 = map (map_prod Some id) (logical_step c xs)"
    by (simp only: logical_step_embed)
  from Cons.IH [OF ok1 h1 c1' rest] a show ?case by simp
qed

subsection \<open>The order of the entries\<close>

text \<open>
  C6. Let the binder \<open>h\<close> hold the entries \<open>xs\<close> in a state whose snapshots satisfy the
  structural invariant (every state reached from the one without binders does, by
  \<open>world_ok_initial\<close> and \<open>operations_keep_world_ok\<close>). A sequence of calls of
  \<^verbatim>\<open>insert_front\<close>, \<^verbatim>\<open>insert_after\<close>, \<^verbatim>\<open>remove()\<close>, \<^verbatim>\<open>remove(k)\<close> and the mutable
  \<^verbatim>\<open>read\<close>, each accepted by the specification where it is made, returns when no
  allocation fails. Whenever such a sequence returns, with or without shared snapshots
  to clone, every call of it was accepted, the entries of \<open>h\<close> are in the logical order
  that the calls define (\<^verbatim>\<open>insert_front\<close> places first, \<^verbatim>\<open>insert_after\<close> places
  immediately after the entry of the given key, \<^verbatim>\<open>remove()\<close> deletes the first entry
  and \<^verbatim>\<open>remove(k)\<close> the entry of \<open>k\<close>), the loop from \<^verbatim>\<open>cbegin()\<close> to \<^verbatim>\<open>cend()\<close>
  stops and visits the values in that order, and \<^verbatim>\<open>size()\<close> is the length of that
  order, which is the number of entries present at first plus the insertions minus the
  removals.
\<close>

theorem iteration_follows_logical_order:
  assumes "world_ok w" "h < length (handles w)"
    and "contents h w = map (map_prod Some id) xs"
  shows "(accepted_all cs xs \<longrightarrow> (\<exists>w'. run no_fault h cs w = (Inr (), w')))
    \<and> (run fails h cs w = (Inr (), w') \<longrightarrow>
         accepted_all cs xs
         \<and> contents h w' = map (map_prod Some id) (logical_order cs xs)
         \<and> values_of h w' = Some (map snd (logical_order cs xs))
         \<and> size_binder h w' = length (logical_order cs xs)
         \<and> size_binder h w' + removals cs = length xs + insertions cs)"
proof (intro conjI impI)
  assume "accepted_all cs xs"
  with assms show "\<exists>w'. run no_fault h cs w = (Inr (), w')" by (rule run_succeeds)
next
  assume res: "run fails h cs w = (Inr (), w')"
  with assms show "accepted_all cs xs" by (rule run_accepted)
  note r = run_ok [OF assms res]
  then show c: "contents h w' = map (map_prod Some id) (logical_order cs xs)" by simp
  from r have "values_of h w' = Some (map snd (contents h w'))"
    by (simp add: values_of_ok)
  with c show "values_of h w' = Some (map snd (logical_order cs xs))"
    by (simp add: comp_def)
  have "size_binder h w' = length (contents h w')"
    by (simp add: size_binder_def contents_def entries_of_def split: option.splits)
  with c show s: "size_binder h w' = length (logical_order cs xs)" by simp
  from s r show "size_binder h w' + removals cs = length xs + insertions cs" by simp
qed

theorem iteration_follows_logical_order_witness:
  "world_ok scenario_0 \<and> contents 0 scenario_0 = []
   \<and> accepted_all [InsertFront 1 ''a'', InsertFront 2 ''b'', InsertAfter 2 3 ''c'',
        InsertAfter 3 4 ''d'', RemoveFirst, RemoveKey 1] ([] :: (nat \<times> string) list)
   \<and> fst (run no_fault 0 [InsertFront 1 ''a'', InsertFront 2 ''b'', InsertAfter 2 3 ''c'',
        InsertAfter 3 4 ''d'', RemoveFirst, RemoveKey 1] scenario_0) = Inr ()
   \<and> contents 0 (snd (run no_fault 0 [InsertFront 1 ''a'', InsertFront 2 ''b'',
        InsertAfter 2 3 ''c'', InsertAfter 3 4 ''d'', RemoveFirst, RemoveKey 1] scenario_0))
      = [(Some 3, ''c''), (Some 4, ''d'')]
   \<and> values_of 0 (snd (run no_fault 0 [InsertFront 1 ''a'', InsertFront 2 ''b'',
        InsertAfter 2 3 ''c'', InsertAfter 3 4 ''d'', RemoveFirst, RemoveKey 1] scenario_0))
      = Some [''c'', ''d'']
   \<and> size_binder 0 (snd (run no_fault 0 [InsertFront 1 ''a'', InsertFront 2 ''b'',
        InsertAfter 2 3 ''c'', InsertAfter 3 4 ''d'', RemoveFirst, RemoveKey 1] scenario_0))
      = 2"
proof -
  let ?cs = "[InsertFront 1 ''a'', InsertFront 2 ''b'', InsertAfter 2 3 ''c'',
    InsertAfter 3 4 ''d'', RemoveFirst, RemoveKey 1] :: (nat, string) call list"
  let ?r = "run no_fault 0 ?cs scenario_0"
  have h: "0 < length (handles scenario_0)" using scenario_run_facts(1) by simp
  have c: "contents 0 scenario_0 = map (map_prod Some id) []"
    using scenario_run_facts(2) by (simp add: contents_def)
  have a: "accepted_all ?cs []" by simp
  note t = iteration_follows_logical_order [OF world_ok_scenario_0 h c, of ?cs no_fault "snd ?r"]
  from t a have "\<exists>w'. ?r = (Inr (), w')" by blast
  then have r: "?r = (Inr (), snd ?r)" by auto
  with t have
    "contents 0 (snd ?r) = map (map_prod Some id) (logical_order ?cs [])"
    "values_of 0 (snd ?r) = Some (map snd (logical_order ?cs []))"
    "size_binder 0 (snd ?r) = length (logical_order ?cs [])"
    by blast+
  moreover have "logical_order ?cs [] = [(3, ''c''), (4, ''d'')]" by simp
  moreover from r have "fst ?r = Inr ()" by (simp add: prod_eq_iff)
  ultimately show ?thesis using world_ok_scenario_0 c a by simp
qed

subsection \<open>A copy made after a mutable read\<close>

lemma copy_after_read:
  assumes "h < length (handles w)"
    and "read fails h k w = (Inr r, w1)"
    and "binder_copy fails' h w1 = (Inr h2, w2)"
  shows "h2 = length (handles w1) \<and> h2 \<noteq> h
    \<and> data (handles w2 ! h) = Some (fst r)
    \<and> data (handles w2 ! h2) \<noteq> data (handles w2 ! h)
    \<and> contents h2 w2 = contents h w1
    \<and> (\<forall>v. handles (ref_set r v w2) = handles w2
           \<and> contents h2 (ref_set r v w2) = contents h w1)"
proof -
  from read_success [OF assms(1,2)] obtain p where
    p: "data (handles w ! h) = Some p"
    and h1: "handles w1 = (handles w)[h := \<lparr>data = Some (edit_target w p), unsharable = True\<rparr>]"
    and r: "fst r = edit_target w p"
    by blast
  from h1 assms(1) have len: "h < length (handles w1)"
    and flag: "unsharable (handles w1 ! h)"
    and dat: "data (handles w1 ! h) = Some (fst r)"
    by (simp_all add: r)
  from binder_copy_unsharable [OF flag dat assms(3)] obtain c where
    h2: "h2 = length (handles w1)"
    and c: "copy_data_t fails' (heap w1 (fst r)) = Inr c"
    and w2: "w2 = \<lparr>handles = handles w1 @ [\<lparr>data = Some (new_addr w1), unsharable = False\<rparr>],
                  heap = (heap w1)(new_addr w1 := c)\<rparr>"
    by blast
  have fresh: "new_addr w1 \<noteq> fst r"
    using new_addr_fresh_nth [OF len] dat by auto
  have c1: "contents h w1 = entries_of (heap w1 (fst r))"
    by (simp add: contents_def dat)
  have c2: "contents h2 w2 = entries_of c"
    by (simp add: contents_def w2 h2)
  have c3: "contents h2 (ref_set r v w2) = entries_of c" for v
    using fresh by (simp add: contents_def w2 h2 ref_set_def)
  have e: "entries_of c = entries_of (heap w1 (fst r))"
    using copy_data_t_notes [OF c] by (simp add: entries_of_def)
  from len h2 dat fresh c1 c2 c3 e show ?thesis
    by (simp add: w2 nth_append ref_set_def)
qed

text \<open>
  C3. After a successful mutable \<^verbatim>\<open>read(k)\<close> on the binder \<open>h\<close>, a successful copy
  construction from \<open>h\<close> gives a new binder \<open>h2\<close> whose snapshot is at another address
  than the one of \<open>h\<close> (into which the returned reference points) and has the contents
  \<open>h\<close> had at the time of the copy; a later write through the reference leaves the
  contents of \<open>h2\<close> as they were. When the key is present, the snapshots satisfy the
  structural invariant and no allocation fails, both calls do succeed.
\<close>

theorem copy_after_read_is_clone:
  assumes "h < length (handles w)"
  shows "(\<forall>r w1 h2 w2.
            read fails h k w = (Inr r, w1) \<and> binder_copy fails' h w1 = (Inr h2, w2) \<longrightarrow>
            h2 = length (handles w1) \<and> h2 \<noteq> h
            \<and> data (handles w2 ! h) = Some (fst r)
            \<and> data (handles w2 ! h2) \<noteq> data (handles w2 ! h)
            \<and> contents h2 w2 = contents h w1
            \<and> (\<forall>v. handles (ref_set r v w2) = handles w2
                   \<and> contents h2 (ref_set r v w2) = contents h w1))
       \<and> (world_ok w \<and> key_present h k w \<longrightarrow>
            (\<exists>r w1 h2 w2. read no_fault h k w = (Inr r, w1)
                \<and> binder_copy no_fault h w1 = (Inr h2, w2)))"
  using copy_after_read [OF assms] read_then_copy_succeeds [OF _ assms]
  by blast

theorem copy_after_read_is_clone_witness:
  "read no_fault 0 3 scenario_3 = (Inr (1, 3), scenario_4)
   \<and> binder_copy no_fault 0 scenario_4 = (Inr 1, scenario_5)
   \<and> data (handles scenario_5 ! 1) \<noteq> data (handles scenario_5 ! 0)
   \<and> contents 1 scenario_5 = [(Some 2, ''b''), (Some 3, ''c''), (Some 1, ''a'')]
   \<and> contents 1 (ref_set (1, 3) ''z'' scenario_5) = [(Some 2, ''b''), (Some 3, ''c''), (Some 1, ''a'')]
   \<and> contents 0 (ref_set (1, 3) ''z'' scenario_5) = [(Some 2, ''b''), (Some 3, ''z''), (Some 1, ''a'')]"
proof -
  have r: "read no_fault 0 3 scenario_3 = (Inr (1, 3), scenario_4)"
    using scenario_4_facts(6) by (simp add: scenario_4_def prod_eq_iff)
  have c: "binder_copy no_fault 0 scenario_4 = (Inr 1, scenario_5)"
    using scenario_4_facts(7) by (simp add: scenario_5_def prod_eq_iff)
  have h: "0 < length (handles scenario_3)" using scenario_4_facts(10) by simp
  from copy_after_read_is_clone [OF h, of no_fault 3 no_fault] r c
  have t: "data (handles scenario_5 ! 1) \<noteq> data (handles scenario_5 ! 0)
      \<and> contents 1 scenario_5 = contents 0 scenario_4
      \<and> (\<forall>v. contents 1 (ref_set (1, 3) v scenario_5) = contents 0 scenario_4)"
    by blast
  from t have a: "data (handles scenario_5 ! 1) \<noteq> data (handles scenario_5 ! 0)"
    by blast
  from t have b: "contents 1 scenario_5 = contents 0 scenario_4"
    by blast
  from t have d: "contents 1 (ref_set (1, 3) ''z'' scenario_5) = contents 0 scenario_4"
    by blast
  from r c a b d scenario_4_facts(8,9) show ?thesis
    by (simp only: simp_thms)
qed

subsection \<open>The scenario of the specification\<close>

text \<open>
  C7. From an empty binder \<open>b\<close> (binder 0): after \<^verbatim>\<open>insert_front(1, "a")\<close> the order
  is [1], after \<^verbatim>\<open>insert_front(2, "b")\<close> it is [2, 1], after
  \<^verbatim>\<open>insert_after(2, 3, "c")\<close> it is [2, 3, 1], and \<^verbatim>\<open>read(3)\<close> gives \<^verbatim>\<open>"c"\<close>
  (through the reference of the mutable overload, and as the value of the \<^verbatim>\<open>const\<close>
  one). After the copy \<open>b2\<close> (binder 1) is made and 1 is removed from \<open>b\<close>, \<open>b\<close> has
  size 2 and order [2, 3], while \<open>b2\<close> has size 3 and holds key 1 with value \<^verbatim>\<open>"a"\<close>;
  this holds with either overload of \<^verbatim>\<open>read\<close> before the copy.
\<close>

theorem scenario:
  "keys_of 0 scenario_1 = [Some 1]
   \<and> keys_of 0 scenario_2 = [Some 2, Some 1]
   \<and> keys_of 0 scenario_3 = [Some 2, Some 3, Some 1]
   \<and> map_sum id (ref_get scenario_4) (fst (read no_fault 0 3 scenario_3)) = Inr (Some ''c'')
   \<and> read_const 0 3 scenario_3 = Inr ''c''
   \<and> fst (binder_copy no_fault 0 scenario_4) = Inr 1
   \<and> size_binder 0 scenario_6 = 2 \<and> keys_of 0 scenario_6 = [Some 2, Some 3]
   \<and> size_binder 1 scenario_6 = 3 \<and> key_present 1 1 scenario_6
   \<and> read_const 1 1 scenario_6 = Inr ''a''
   \<and> fst (binder_copy no_fault 0 scenario_3) = Inr 1
   \<and> size_binder 0 scenario_6c = 2 \<and> keys_of 0 scenario_6c = [Some 2, Some 3]
   \<and> size_binder 1 scenario_6c = 3 \<and> key_present 1 1 scenario_6c
   \<and> read_const 1 1 scenario_6c = Inr ''a''"
  by code_simp

subsection \<open>Rejected calls\<close>

text \<open>
  The claim C5 as it is written fails for \<^verbatim>\<open>insert_after\<close>: with the key present and
  the previous key absent the call reports the missing previous key.
\<close>

theorem insert_after_absent_prev_counterexample:
  "key_present 0 1 scenario_3 \<and> \<not> key_present 0 5 scenario_3
   \<and> fst (insert_after no_fault 0 5 1 ''x'' scenario_3) = Inl (InvalidArgument ''Prev_key not found'')
   \<and> fst (insert_after no_fault 0 5 1 ''x'' scenario_3) \<noteq> Inl (InvalidArgument ''Key already exists'')"
  by code_simp

text \<open>
  C5, amended. \<^verbatim>\<open>remove(k)\<close> with \<open>k\<close> absent throws "Key not found";
  \<^verbatim>\<open>insert_front(k, v)\<close> with \<open>k\<close> present throws "Key already exists";
  \<^verbatim>\<open>insert_after(p, k, v)\<close> throws "Key already exists" when \<open>p\<close> and \<open>k\<close> are both
  present, and "Prev_key not found" when \<open>p\<close> is absent, whether \<open>k\<close> is present or
  not; \<^verbatim>\<open>remove()\<close> on a binder of size 0 throws "Empty binder". Each of these calls
  leaves the whole state, and so the size and the iteration order of every binder, as
  it was.
\<close>

theorem rejected_calls:
  "(\<not> key_present h k w \<longrightarrow>
      remove_key fails h k w = (Inl (InvalidArgument ''Key not found''), w))
   \<and> (key_present h k w \<longrightarrow>
      insert_front fails h k v w = (Inl (InvalidArgument ''Key already exists''), w))
   \<and> (key_present h p w \<and> key_present h k w \<longrightarrow>
      insert_after fails h p k v w = (Inl (InvalidArgument ''Key already exists''), w))
   \<and> (\<not> key_present h p w \<longrightarrow>
      insert_after fails h p k v w = (Inl (InvalidArgument ''Prev_key not found''), w))
   \<and> (size_binder h w = 0 \<longrightarrow>
      remove_first fails h w = (Inl (InvalidArgument ''Empty binder''), w))"
  by (auto simp: key_present_def remove_key_def insert_front_def insert_after_def
      remove_first_def split: option.splits)

lemma key_present_scenario_3:
  "key_present 0 1 scenario_3" "key_present 0 2 scenario_3" "\<not> key_present 0 5 scenario_3"
  "size_binder 0 scenario_0 = 0"
  by code_simp+

theorem rejected_calls_witness:
  "remove_key no_fault 0 5 scenario_3 = (Inl (InvalidArgument ''Key not found''), scenario_3)
   \<and> insert_front no_fault 0 1 ''x'' scenario_3 = (Inl (InvalidArgument ''Key already exists''), scenario_3)
   \<and> insert_after no_fault 0 2 1 ''x'' scenario_3 = (Inl (InvalidArgument ''Key already exists''), scenario_3)
   \<and> insert_after no_fault 0 5 7 ''x'' scenario_3 = (Inl (InvalidArgument ''Prev_key not found''), scenario_3)
   \<and> remove_first no_fault 0 scenario_0 = (Inl (InvalidArgument ''Empty binder''), scenario_0)"
  using rejected_calls [of 0 5 scenario_3 no_fault]
    rejected_calls [of 0 1 scenario_3 no_fault "''x''" 2]
    rejected_calls [of 0 7 scenario_3 no_fault "''x''" 5]
    rejected_calls [of 0 7 scenario_0 no_fault "''x''" 5]
    key_present_scenario_3
  by simp

subsection \<open>Moves\<close>





subsection \<open>A failed insertion into an empty binder\<close>

text \<open>
  C1 at a failing input. \<^verbatim>\<open>insert_front\<close> on a binder without a snapshot assigns a
  new snapshot to \<^verbatim>\<open>data\<close> before the steps that may throw. When the insertion of
  the list node or of the index entry throws, the call ends with the exception and the
  binder keeps the new, empty snapshot: its snapshot reference is not what it was. On a
  binder that holds a snapshot every failed call keeps the state
  (\<open>failed_call_keeps_state\<close>).
\<close>

theorem insert_front_failure_keeps_allocation:
  "data (handles scenario_0 ! 0) = None
   \<and> fst (insert_front (\<lambda>s. s = InsertNote) 0 1 ''a'' scenario_0) = Inl BadAlloc
   \<and> data (handles (snd (insert_front (\<lambda>s. s = InsertNote) 0 1 ''a'' scenario_0)) ! 0) = Some 1
   \<and> fst (insert_front (\<lambda>s. s = InsertIndex) 0 1 ''a'' scenario_0) = Inl BadAlloc
   \<and> data (handles (snd (insert_front (\<lambda>s. s = InsertIndex) 0 1 ''a'' scenario_0)) ! 0) = Some 1"
  by code_simp

end
